theory Spec2Isabelle
  imports Main "HOL-Library.Sublist" "HOL-Library.Word"
begin

unbundle bit_operations_syntax

section \<open>C strings\<close>

text \<open>
  A C string is modelled as the list of its characters before the terminating NUL.
  A pointer into a string is the suffix that starts at the pointer.
\<close>

text \<open>\<^verbatim>\<open>strstr(haystack, needle)\<close>: the suffix of the haystack that starts at the first
  occurrence of the needle, or NULL.\<close>

fun strstr :: "string \<Rightarrow> string \<Rightarrow> string option" where
  "strstr [] needle = (if needle = [] then Some [] else None)"
| "strstr (c # cs) needle =
     (if prefix needle (c # cs) then Some (c # cs) else strstr cs needle)"

text \<open>\<^verbatim>\<open>strchr(s, c)\<close> for a character \<open>c\<close> other than NUL: the suffix that starts at
  the first \<open>c\<close>, or NULL.\<close>

fun strchr :: "string \<Rightarrow> char \<Rightarrow> string option" where
  "strchr [] c = None"
| "strchr (x # xs) c = (if x = c then Some (x # xs) else strchr xs c)"

section \<open>The pidfile plugin: plugins/pidfile.c\<close>

subsection \<open>pidfile\_add\_path\<close>

text \<open>The inotify flag handed to \<^verbatim>\<open>iwatch_add\<close>; only its identity matters here.\<close>

datatype iwatch_flag = IN_ONLYDIR

text \<open>
  \<^verbatim>\<open>iwatch_add\<close> lives in iwatch.c, which is not part of the code at hand, so it is a
  parameter: it takes the watcher state, the path and the flag and returns the new
  watcher state with its return code.

  The function follows the source line by line.  After the first \<^verbatim>\<open>strchr\<close>, the
  statement \<^verbatim>\<open>ptr = slash++\<close> stores the old value of \<^verbatim>\<open>slash\<close> in \<^verbatim>\<open>ptr\<close>, so the second
  \<^verbatim>\<open>strchr\<close> starts at the slash just found.
\<close>

definition pidfile_add_path ::
  "('iw \<Rightarrow> string \<Rightarrow> iwatch_flag \<Rightarrow> 'iw \<times> int) \<Rightarrow> 'iw \<Rightarrow> string \<Rightarrow> 'iw \<times> int" where
  "pidfile_add_path iwatch_add iw path =
     (case strstr path ''run/'' of
        None \<Rightarrow> iwatch_add iw path IN_ONLYDIR
      | Some ptr0 \<Rightarrow>
          (let ptr = drop 4 ptr0 in
           case strchr ptr CHR ''/'' of
             None \<Rightarrow> iwatch_add iw path IN_ONLYDIR
           | Some slash \<Rightarrow>
               (let ptr = slash in
                case strchr ptr CHR ''/'' of
                  Some _ \<Rightarrow> (iw, - 1)
                | None \<Rightarrow> iwatch_add iw path IN_ONLYDIR)))"

subsection \<open>Services, conditions and the inotify watcher\<close>

text \<open>
  Modelled from the spec: the states of a service record (section 4.4).  The enumeration is
  declared in svc.h, which is absent; the code at hand names \<^verbatim>\<open>SVC_RUNNING_STATE\<close> only.
\<close>

datatype svc_state =
    SVC_HALTED_STATE | SVC_CONDITIONAL_STATE | SVC_SETUP_STATE | SVC_STARTING_STATE
  | SVC_RUNNING_STATE | SVC_READY_STATE | SVC_STOPPING_STATE | SVC_HALTING_STATE
  | SVC_CRASHED_STATE

text \<open>
  Modelled from the spec: the service record \<^verbatim>\<open>svc_t\<close> (section 3), declared in svc.h,
  which is absent.  The fields are those the pidfile plugin reads and writes (\<^verbatim>\<open>name\<close>,
  \<^verbatim>\<open>cmd\<close>, \<^verbatim>\<open>pid\<close>, \<^verbatim>\<open>state\<close>) and the answers of the accessors it calls on a record:
  \<^verbatim>\<open>pid_file(svc)\<close>, \<^verbatim>\<open>svc_is_forking(svc)\<close>, \<^verbatim>\<open>svc_is_changed(svc)\<close> and
  \<^verbatim>\<open>svc_is_starting(svc)\<close>.
\<close>

record svc_t =
  svc_name :: string
  svc_cmd :: string
  svc_pid :: int
  svc_state :: svc_state
  svc_pid_file :: string
  svc_is_forking :: bool
  svc_is_changed :: bool
  svc_is_starting :: bool

text \<open>Modelled from the spec: the three states of a condition (section 3); cond.h is absent.\<close>

datatype cond_state = COND_OFF | COND_FLUX | COND_ON

text \<open>The service types handed to \<^verbatim>\<open>service_step_all\<close>; a bit mask in C, a set here.\<close>

datatype svc_type = SVC_TYPE_SERVICE | SVC_TYPE_RUNTASK

text \<open>The calls into the condition engine, in the order they are made.\<close>

datatype cond_call =
    CondSet string | CondClear string | CondSetPath string cond_state

text \<open>
  The state the plugin works on: the service registry in iteration order, the condition
  store (one state per condition file, keyed by its path), the calls made into the condition
  engine so far, and the inotify watcher \<^verbatim>\<open>iw_pidfile\<close>.
\<close>

record 'iw world =
  svcs :: "svc_t list"
  conds :: "string \<Rightarrow> cond_state"
  calls :: "cond_call list"
  iw_pidfile :: 'iw

text \<open>An entry of the watcher, \<^verbatim>\<open>struct iwatch_path\<close> (iwatch.h, absent).\<close>

record iwatch_path =
  iwp_wd :: int
  iwp_path :: string

text \<open>The result of \<^verbatim>\<open>glob(3)\<close>: the matches, no match, or another error.\<close>

datatype glob_rc = GLOB_OK "string list" | GLOB_NOMATCH | GLOB_FAILED

text \<open>
  The functions the plugin calls whose code is absent, as parameters: \<^verbatim>\<open>mkcond\<close> (the
  name of a service's own condition), \<^verbatim>\<open>svc_started\<close>, \<^verbatim>\<open>cond_path\<close> (the file of a
  condition), \<^verbatim>\<open>pid_file_read\<close> (the pid stored in a file), \<^verbatim>\<open>service_step_all\<close>, the
  iwatch functions and \<^verbatim>\<open>glob\<close>.
\<close>

record 'iw ext =
  mkcond :: "svc_t \<Rightarrow> string"
  svc_started :: "svc_t \<Rightarrow> svc_t"
  cond_path :: "string \<Rightarrow> string"
  pid_file_read :: "string \<Rightarrow> int"
  service_step_all :: "svc_type set \<Rightarrow> 'iw world \<Rightarrow> 'iw world"
  iwatch_add :: "'iw \<Rightarrow> string \<Rightarrow> iwatch_flag \<Rightarrow> 'iw \<times> int"
  iwatch_del :: "'iw \<Rightarrow> iwatch_path \<Rightarrow> 'iw"
  iwatch_find_by_wd :: "'iw \<Rightarrow> int \<Rightarrow> iwatch_path option"
  iwatch_find_by_path :: "'iw \<Rightarrow> string \<Rightarrow> iwatch_path option"
  glob :: "string \<Rightarrow> glob_rc"

text \<open>
  Modelled from the spec: the condition store's \<^verbatim>\<open>set\<close>, \<^verbatim>\<open>clear\<close> and \<^verbatim>\<open>get\<close> (section
  4.2) and \<^verbatim>\<open>cond_set_path\<close>; cond.c is absent.  \<^verbatim>\<open>set\<close> is the transition to \<open>ON\<close>: when
  the condition was \<open>OFF\<close> or \<open>FLUX\<close> it becomes \<open>ON\<close> and a registry-wide \<^verbatim>\<open>step_all\<close> (the
  step over every service type) runs on the state that holds the new condition; when it
  was \<open>ON\<close> already nothing changes.  \<^verbatim>\<open>clear\<close> is the transition to \<open>OFF\<close> with the same
  trigger rule.  \<^verbatim>\<open>cond_set_path\<close> writes the given state to the given file.  Each call is
  recorded before it takes effect.
\<close>

definition cond_get :: "'iw ext \<Rightarrow> string \<Rightarrow> 'iw world \<Rightarrow> cond_state" where
  "cond_get X c w = conds w (cond_path X c)"

definition cond_set :: "'iw ext \<Rightarrow> string \<Rightarrow> 'iw world \<Rightarrow> 'iw world" where
  "cond_set X c w =
     (if cond_get X c w = COND_ON then w\<lparr>calls := calls w @ [CondSet c]\<rparr>
      else service_step_all X UNIV
             (w\<lparr>conds := (conds w)(cond_path X c := COND_ON), calls := calls w @ [CondSet c]\<rparr>))"

definition cond_clear :: "'iw ext \<Rightarrow> string \<Rightarrow> 'iw world \<Rightarrow> 'iw world" where
  "cond_clear X c w =
     (if cond_get X c w = COND_OFF then w\<lparr>calls := calls w @ [CondClear c]\<rparr>
      else service_step_all X UNIV
             (w\<lparr>conds := (conds w)(cond_path X c := COND_OFF), calls := calls w @ [CondClear c]\<rparr>))"

definition cond_set_path :: "string \<Rightarrow> cond_state \<Rightarrow> 'iw world \<Rightarrow> 'iw world" where
  "cond_set_path p st w =
     w\<lparr>conds := (conds w)(p := st), calls := calls w @ [CondSetPath p st]\<rparr>"

text \<open>
  Modelled from the spec: the registry's \<^verbatim>\<open>lookup_by_pidfile\<close> (section 4.3); svc.c is
  absent.  The result is the position of the first record whose pidfile path is the given
  one, standing for the pointer to that record.
\<close>

fun find_first :: "('a \<Rightarrow> bool) \<Rightarrow> 'a list \<Rightarrow> nat option" where
  "find_first P [] = None"
| "find_first P (x # xs) =
     (if P x then Some 0 else map_option Suc (find_first P xs))"

definition svc_find_by_pidfile :: "'iw world \<Rightarrow> string \<Rightarrow> nat option" where
  "svc_find_by_pidfile w fn = find_first (\<lambda>s. svc_pid_file s = fn) (svcs w)"

subsection \<open>fnmatch\<close>

text \<open>
  \<^verbatim>\<open>fnmatch(pattern, string, 0)\<close> for patterns made of \<^verbatim>\<open>*\<close>, \<^verbatim>\<open>?\<close>, a backslash
  followed by a character to be taken literally, and ordinary characters (bracket
  expressions do not occur in the patterns of this plugin).  With no flags, \<^verbatim>\<open>*\<close> and
  \<^verbatim>\<open>?\<close> also match a slash.  The result here is whether the string matches; the C
  function returns 0 in that case.
\<close>

fun fnmatch :: "string \<Rightarrow> string \<Rightarrow> bool" where
  "fnmatch [] s = (s = [])"
| "fnmatch (p # ps) s =
     (if p = CHR ''*'' then list_ex (\<lambda>k. fnmatch ps (drop k s)) [0..<Suc (length s)]
      else if p = CHR ''?'' then (case s of [] \<Rightarrow> False | c # t \<Rightarrow> fnmatch ps t)
      else if p = CHR 0x5C then
        (case ps of
           [] \<Rightarrow> False
         | q # qs \<Rightarrow> (case s of [] \<Rightarrow> False | c # t \<Rightarrow> c = q \<and> fnmatch qs t))
      else (case s of [] \<Rightarrow> False | c # t \<Rightarrow> c = p \<and> fnmatch ps t))"

text \<open>The two patterns of the plugin, \<^verbatim>\<open>"*\\.pid"\<close> and \<^verbatim>\<open>"*/pid"\<close> in the C source.\<close>

definition pat_dot_pid :: string where
  "pat_dot_pid = CHR ''*'' # CHR 0x5C # ''.pid''"

definition pat_slash_pid :: string where
  "pat_slash_pid = ''*/pid''"

subsection \<open>pidfile\_update\_conds\<close>

text \<open>The inotify event bits of \<^verbatim>\<open>sys/inotify.h\<close> on Linux.\<close>

definition IN_MODIFY :: "32 word" where "IN_MODIFY = 0x00000002"
definition IN_ATTRIB :: "32 word" where "IN_ATTRIB = 0x00000004"
definition IN_MOVED_TO :: "32 word" where "IN_MOVED_TO = 0x00000080"
definition IN_CREATE :: "32 word" where "IN_CREATE = 0x00000100"
definition IN_DELETE :: "32 word" where "IN_DELETE = 0x00000200"
definition IN_ISDIR :: "32 word" where "IN_ISDIR = 0x40000000"

text \<open>\<^verbatim>\<open>PATH_MAX\<close> of \<^verbatim>\<open>limits.h\<close> on Linux; \<^verbatim>\<open>snprintf\<close> into a buffer of that size keeps
  at most \<open>PATH_MAX - 1\<close> characters.\<close>

definition PATH_MAX :: nat where "PATH_MAX = 4096"

definition pidfile_update_conds ::
  "'iw ext \<Rightarrow> string \<Rightarrow> string \<Rightarrow> 32 word \<Rightarrow> 'iw world \<Rightarrow> 'iw world" where
  "pidfile_update_conds X dir name emask w =
     (let fn = take (PATH_MAX - 1) (dir @ ''/'' @ name) in
      if \<not> fnmatch pat_dot_pid fn \<and> \<not> fnmatch pat_slash_pid fn then w
      else case svc_find_by_pidfile w fn of
        None \<Rightarrow> w
      | Some i \<Rightarrow>
          (let cond = mkcond X (svcs w ! i) in
           if emask AND (IN_CREATE OR IN_ATTRIB OR IN_MODIFY OR IN_MOVED_TO) \<noteq> 0 then
             (let w1 = w\<lparr>svcs := (svcs w)[i := svc_started X (svcs w ! i)]\<rparr>;
                  w2 = (if svc_is_forking (svcs w1 ! i) then
                          (let pid = pid_file_read X (svc_pid_file (svcs w1 ! i)) in
                           w1\<lparr>svcs := (svcs w1)[i := (svcs w1 ! i)\<lparr>svc_pid := pid\<rparr>]\<rparr>)
                        else w1)
              in cond_set X cond w2)
           else if emask AND IN_DELETE \<noteq> 0 then cond_clear X cond w
           else w))"

subsection \<open>pidfile\_scandir and pidfile\_handle\_dir\<close>

text \<open>
  Both \<^verbatim>\<open>glob\<close> calls write their pattern into a buffer that is exactly large enough, so
  nothing is cut.  The second call appends to the matches of the first.  Every match is
  handed to \<^verbatim>\<open>pidfile_update_conds\<close> as the name, with the mask \<^verbatim>\<open>IN_CREATE\<close>.
\<close>

definition glob_matches :: "glob_rc \<Rightarrow> string list" where
  "glob_matches r = (case r of GLOB_OK ms \<Rightarrow> ms | _ \<Rightarrow> [])"

definition pidfile_scandir :: "'iw ext \<Rightarrow> string \<Rightarrow> 'iw world \<Rightarrow> 'iw world" where
  "pidfile_scandir X dir w =
     (let rc1 = glob X (dir @ ''/*.pid'') in
      if rc1 = GLOB_FAILED then w
      else
        (let rc2 = glob X (dir @ ''/pid'') in
         if rc2 = GLOB_FAILED then w
         else fold (\<lambda>m. pidfile_update_conds X dir m IN_CREATE)
                (glob_matches rc1 @ glob_matches rc2) w))"

definition pidfile_handle_dir ::
  "'iw ext \<Rightarrow> string \<Rightarrow> string \<Rightarrow> 32 word \<Rightarrow> 'iw world \<Rightarrow> 'iw world" where
  "pidfile_handle_dir X dir name emask w =
     (let path = dir @ ''/'' @ name;
          iwp = iwatch_find_by_path X (iw_pidfile w) path
      in if emask AND IN_CREATE \<noteq> 0 then
           (case iwp of
              None \<Rightarrow>
                (let (iw', rc) = pidfile_add_path (iwatch_add X) (iw_pidfile w) path
                 in pidfile_scandir X path (w\<lparr>iw_pidfile := iw'\<rparr>))
            | Some _ \<Rightarrow> w)
         else if emask AND IN_DELETE \<noteq> 0 then
           (case iwp of
              Some e \<Rightarrow> w\<lparr>iw_pidfile := iwatch_del X (iw_pidfile w) e\<rparr>
            | None \<Rightarrow> w)
         else w)"

subsection \<open>pidfile\_callback\<close>

text \<open>An inotify event as read from the descriptor.\<close>

record inotify_event =
  ev_wd :: int
  ev_mask :: "32 word"
  ev_name :: string

text \<open>The body of the loop over the events read.\<close>

definition pidfile_event :: "'iw ext \<Rightarrow> inotify_event \<Rightarrow> 'iw world \<Rightarrow> 'iw world" where
  "pidfile_event X ev w =
     (if ev_mask ev = 0 then w
      else case iwatch_find_by_wd X (iw_pidfile w) (ev_wd ev) of
        None \<Rightarrow> w
      | Some iwp \<Rightarrow>
          if ev_mask ev AND IN_ISDIR \<noteq> 0 then
            pidfile_handle_dir X (iwp_path iwp) (ev_name ev) (ev_mask ev) w
          else if ev_mask ev AND IN_DELETE \<noteq> 0 then w
          else if ev_mask ev AND (IN_CREATE OR IN_ATTRIB OR IN_MODIFY OR IN_MOVED_TO) \<noteq> 0 then
            pidfile_update_conds X (iwp_path iwp) (ev_name ev) (ev_mask ev) w
          else w)"

text \<open>
  What \<^verbatim>\<open>read\<close> delivers is \<open>None\<close> when the buffer cannot be allocated or nothing is
  read, and the events in the buffer otherwise.
\<close>

definition pidfile_callback ::
  "'iw ext \<Rightarrow> inotify_event list option \<Rightarrow> 'iw world \<Rightarrow> 'iw world" where
  "pidfile_callback X rd w =
     (case rd of None \<Rightarrow> w | Some evs \<Rightarrow> fold (pidfile_event X) evs w)"

subsection \<open>pidfile\_reconf\<close>

text \<open>
  The body of the loop over the registry, the loop itself (the iterator yields the records in
  registry order, and the body leaves the registry alone), and the function with its final
  step.
\<close>

definition reconf_svc :: "'iw ext \<Rightarrow> svc_t \<Rightarrow> 'iw world \<Rightarrow> 'iw world" where
  "reconf_svc X svc w =
     (if svc_state svc \<noteq> SVC_RUNNING_STATE then w
      else if svc_is_changed svc \<or> svc_is_starting svc then w
      else
        (let cond = mkcond X svc in
         if cond_get X cond w = COND_ON then w
         else cond_set_path (cond_path X cond) COND_ON w))"

definition pidfile_reconf_loop :: "'iw ext \<Rightarrow> svc_t list \<Rightarrow> 'iw world \<Rightarrow> 'iw world" where
  "pidfile_reconf_loop X ss w = fold (reconf_svc X) ss w"

definition pidfile_reconf :: "'iw ext \<Rightarrow> 'iw world \<Rightarrow> 'iw world" where
  "pidfile_reconf X w =
     service_step_all X {SVC_TYPE_SERVICE, SVC_TYPE_RUNTASK}
       (pidfile_reconf_loop X (svcs w) w)"

section \<open>The plugin dispatcher: plugin.c\<close>

subsection \<open>Plugin objects and the dispatcher's state\<close>

text \<open>
  A hook point is a value of the enumeration \<^verbatim>\<open>hook_point_t\<close> of plugin.h, which is absent;
  it is taken as the natural number of the enumerator.  A \<^verbatim>\<open>void *\<close> argument is a natural
  number, 0 being NULL.
\<close>

type_synonym hook_point_t = nat

text \<open>
  One hook of a plugin: the callback, if any, and its registered argument.  A callback
  takes its argument and acts on the part \<open>'u\<close> of the system that lies outside the
  dispatcher; it does not register or remove plugins.
\<close>

record 'u hook_t =
  hook_cb :: "(nat \<Rightarrow> 'u \<Rightarrow> 'u) option"
  hook_arg :: nat

text \<open>
  A \<^verbatim>\<open>plugin_t\<close> is an object in the memory of the program or of the shared object that
  defines it.  \<^verbatim>\<open>plugin_register\<close> is handed a pointer to it, writes to it through that
  pointer and links the object itself into the list.  A pointer to a plugin is the address
  of the object, a natural number.
\<close>

type_synonym plugin_ptr = nat

text \<open>
  A \<^verbatim>\<open>char *\<close> as the dispatcher uses it for a name: NULL, a pointer to a string, or a
  pointer to memory that has been freed.
\<close>

datatype cstring = NULL | Str string | Freed

text \<open>
  \<^verbatim>\<open>plugin_t\<close> with the fields this file uses: the name, the hooks by hook point, the names
  in \<^verbatim>\<open>depends\<close> before the first NULL, and the handle of \<^verbatim>\<open>dlopen\<close> (a handle is
  identified by the path of the shared object it stands for).
\<close>

record 'u plugin_t =
  plugin_name :: cstring
  plugin_hook :: "hook_point_t \<Rightarrow> 'u hook_t"
  plugin_depends :: "string list"
  plugin_handle :: "string option"

text \<open>
  What the dispatcher does, in order: a plugin is linked into the list
  (\<^verbatim>\<open>TAILQ_INSERT_TAIL\<close>), a callback is called, a condition is set, the services are
  stepped, a shared object is opened or closed.
\<close>

datatype plugin_call =
    Registered plugin_ptr
  | HookCb plugin_ptr hook_point_t nat
  | CondSetOneshot string
  | ServiceStepAll "svc_type set"
  | Dlopen string
  | Dlclose string

text \<open>
  The state: the plugin objects in memory by address, the list \<^verbatim>\<open>plugins\<close> from head to
  tail (the addresses of the linked objects), \<^verbatim>\<open>plugpath\<close>, the shared objects that
  \<^verbatim>\<open>dlopen\<close> has loaded, the rest of the system, and what the dispatcher has done so far.
\<close>

record 'u pstate =
  objs :: "plugin_ptr \<Rightarrow> 'u plugin_t"
  plugins :: "plugin_ptr list"
  plugpath :: "string option"
  loaded :: "string list"
  sys :: 'u
  pcalls :: "plugin_call list"

text \<open>
  What plugin.c takes from absent headers, from the build and from the system:
  the enumerators \<^verbatim>\<open>HOOK_MOUNT_ERROR\<close> and \<^verbatim>\<open>HOOK_BASEFS_UP\<close> and the table
  \<^verbatim>\<open>hook_cond\<close> built from \<^verbatim>\<open>HOOK_TYPES\<close> (plugin.h), \<^verbatim>\<open>PLUGIN_DEP_MAX\<close>, \<^verbatim>\<open>CMD_SIZE\<close>,
  whether \<^verbatim>\<open>ENABLE_STATIC\<close> is defined, the file name \<^verbatim>\<open>dladdr\<close> finds for the address of
  a plugin, \<^verbatim>\<open>fisdir\<close>, the shared objects of the file system (for a path that \<^verbatim>\<open>dlopen\<close>
  can load, the plugins that the constructors of the shared object register; \<open>None\<close> for
  a path it cannot load), and the effects of \<^verbatim>\<open>cond_set_oneshot\<close> and \<^verbatim>\<open>service_step_all\<close>
  on the rest of the system.
\<close>

record 'u plugin_env =
  HOOK_MOUNT_ERROR :: hook_point_t
  HOOK_BASEFS_UP :: hook_point_t
  hook_cond :: "hook_point_t \<Rightarrow> string"
  PLUGIN_DEP_MAX :: nat
  CMD_SIZE :: nat
  ENABLE_STATIC :: bool
  dladdr :: "plugin_ptr \<Rightarrow> string option"
  fisdir :: "string \<Rightarrow> bool"
  dl_ctors :: "string \<Rightarrow> plugin_ptr list option"
  cond_set_oneshot :: "string \<Rightarrow> 'u \<Rightarrow> 'u"
  step_all :: "svc_type set \<Rightarrow> 'u \<Rightarrow> 'u"

text \<open>
  Two things are not a result of the C code: reading a string through a pointer that is
  NULL or whose memory has been freed, which is undefined, and a chain of constructors
  that register plugins whose dependencies load further shared objects, nested deeper than
  the bound the model is run with.  A function that can meet either returns \<open>Inl\<close> of the
  fault, and \<open>Inr\<close> of its result otherwise.
\<close>

datatype fault = BadPointer | OutOfFuel

fun fold_res :: "('a \<Rightarrow> 's \<Rightarrow> fault + 's) \<Rightarrow> 'a list \<Rightarrow> 's \<Rightarrow> fault + 's" where
  "fold_res f [] s = Inr s"
| "fold_res f (x # xs) s = (case f x s of Inl e \<Rightarrow> Inl e | Inr s' \<Rightarrow> fold_res f xs s')"

subsection \<open>trim\_ext and plugin\_find\<close>

text \<open>Writing NUL at a pointer into the name keeps what lies before the pointer.\<close>

definition cut_at :: "string \<Rightarrow> string \<Rightarrow> string" where
  "cut_at name ptr = take (length name - length ptr) name"

definition trim_ext :: "string \<Rightarrow> string" where
  "trim_ext name =
     (case strstr name ''.so'' of
        Some ptr \<Rightarrow> cut_at name ptr
      | None \<Rightarrow>
          (case strstr name ''.c'' of
             Some ptr \<Rightarrow> cut_at name ptr
           | None \<Rightarrow> name))"

text \<open>
  Modelled from the spec: the macro \<^verbatim>\<open>PLUGIN_ITERATOR\<close> of an absent header, which
  visits the plugins in load order (section 5), that is the list from head to tail.

  The macro \<^verbatim>\<open>SEARCH_PLUGIN\<close> of plugin.c runs it, compares the name of each plugin with
  the given string by \<^verbatim>\<open>strcmp\<close> and returns the first plugin whose name is equal.  The
  comparison reads the name of the plugin.
\<close>

fun search_plugins ::
  "(plugin_ptr \<Rightarrow> cstring) \<Rightarrow> string \<Rightarrow> plugin_ptr list \<Rightarrow> fault + plugin_ptr option" where
  "search_plugins name str [] = Inr None"
| "search_plugins name str (p # ps) =
     (case name p of
        Str n \<Rightarrow> if n = str then Inr (Some p) else search_plugins name str ps
      | _ \<Rightarrow> Inl BadPointer)"

definition SEARCH_PLUGIN :: "'u pstate \<Rightarrow> string \<Rightarrow> fault + plugin_ptr option" where
  "SEARCH_PLUGIN w str = search_plugins (\<lambda>p. plugin_name (objs w p)) str (plugins w)"

text \<open>\<^verbatim>\<open>fisslashdir\<close> of libite: whether the path ends in a slash.\<close>

definition fisslashdir :: "string \<Rightarrow> bool" where
  "fisslashdir dir = (dir \<noteq> [] \<and> last dir = CHR ''/'')"

text \<open>
  \<^verbatim>\<open>strcmp(name + strlen(name) - 3, ".so")\<close> as a truth value: whether the last three
  characters differ from \<^verbatim>\<open>.so\<close>.  For a name shorter than three characters the C
  expression reads before the string; here the comparison is then with the whole name,
  which differs.
\<close>

definition noext :: "string \<Rightarrow> bool" where
  "noext name = (drop (length name - 3) name \<noteq> ''.so'')"

definition plugin_find ::
  "'u plugin_env \<Rightarrow> string option \<Rightarrow> 'u pstate \<Rightarrow> fault + plugin_ptr option" where
  "plugin_find E name w =
     (case name of
        None \<Rightarrow> Inr None
      | Some n \<Rightarrow>
          (case SEARCH_PLUGIN w n of
             Inl e \<Rightarrow> Inl e
           | Inr (Some p) \<Rightarrow> Inr (Some p)
           | Inr None \<Rightarrow>
               (case plugpath w of
                  None \<Rightarrow> Inr None
                | Some pp \<Rightarrow>
                    if take 1 n \<noteq> ''/'' then
                      SEARCH_PLUGIN w
                        (take (CMD_SIZE E - 1)
                           (pp @ (if fisslashdir pp then [] else ''/'') @ n
                              @ (if noext n then ''.so'' else [])))
                    else Inr None)))"

subsection \<open>dlopen, load\_one and check\_plugin\_depends\<close>

text \<open>
  \<^verbatim>\<open>dlopen(3)\<close>: a path that cannot be loaded gives NULL; a shared object that is loaded
  already gives its handle and nothing else happens; otherwise the shared object is loaded
  and its constructors run, each of which registers its plugin (the constructor that
  \<^verbatim>\<open>PLUGIN_INIT\<close> defines calls \<^verbatim>\<open>plugin_register\<close>, as the comment of \<^verbatim>\<open>load_one\<close> says).
  The parameter \<open>ctor\<close> is the run of one constructor.
\<close>

definition dlopen ::
  "(plugin_ptr \<Rightarrow> 'u pstate \<Rightarrow> fault + 'u pstate) \<Rightarrow> 'u plugin_env \<Rightarrow> string \<Rightarrow> 'u pstate
     \<Rightarrow> fault + (string option \<times> 'u pstate)" where
  "dlopen ctor E sofile w =
     (case dl_ctors E sofile of
        None \<Rightarrow> Inr (None, w)
      | Some cs \<Rightarrow>
          if sofile \<in> set (loaded w) then Inr (Some sofile, w)
          else (case fold_res ctor cs (w\<lparr>loaded := sofile # loaded w\<rparr>) of
                  Inl e \<Rightarrow> Inl e
                | Inr w1 \<Rightarrow> Inr (Some sofile, w1)))"

text \<open>
  \<^verbatim>\<open>load_one\<close> returns 0 on success.  After a successful \<^verbatim>\<open>dlopen\<close> the handle is stored
  in the plugin at the tail of the list.
\<close>

definition load_one ::
  "(plugin_ptr \<Rightarrow> 'u pstate \<Rightarrow> fault + 'u pstate) \<Rightarrow> 'u plugin_env \<Rightarrow> string option
     \<Rightarrow> string option \<Rightarrow> 'u pstate \<Rightarrow> fault + (int \<times> 'u pstate)" where
  "load_one ctor E path name w =
     (case (path, name) of
        (Some pa, Some n) \<Rightarrow>
          if \<not> fisdir E pa then Inr (1, w)
          else
            (let sofile = take (CMD_SIZE E - 1)
                            (pa @ ''/'' @ n @ (if noext n then ''.so'' else []))
             in case dlopen ctor E sofile (w\<lparr>pcalls := pcalls w @ [Dlopen sofile]\<rparr>) of
                  Inl e \<Rightarrow> Inl e
                | Inr (None, w1) \<Rightarrow> Inr (1, w1)
                | Inr (Some handle, w1) \<Rightarrow>
                    if plugins w1 = [] then
                      Inr (1, w1\<lparr>pcalls := pcalls w1 @ [Dlclose handle]\<rparr>)
                    else
                      Inr (0, w1\<lparr>objs := (objs w1)
                                  (last (plugins w1) :=
                                     (objs w1 (last (plugins w1)))
                                       \<lparr>plugin_handle := Some handle\<rparr>)\<rparr>))
      | _ \<Rightarrow> Inr (1, w))"

text \<open>
  The loop of \<^verbatim>\<open>check_plugin_depends\<close> over the names in \<^verbatim>\<open>depends\<close> (no code writes to
  that field, so the names are those the plugin has when the loop starts).
\<close>

definition check_plugin_depends ::
  "(plugin_ptr \<Rightarrow> 'u pstate \<Rightarrow> fault + 'u pstate) \<Rightarrow> 'u plugin_env \<Rightarrow> plugin_ptr
     \<Rightarrow> 'u pstate \<Rightarrow> fault + 'u pstate" where
  "check_plugin_depends ctor E plugin w =
     fold_res (\<lambda>dep w.
                 case plugin_find E (Some dep) w of
                   Inl e \<Rightarrow> Inl e
                 | Inr (Some p) \<Rightarrow> Inr w
                 | Inr None \<Rightarrow>
                     (case load_one ctor E (plugpath w) (Some dep) w of
                        Inl e \<Rightarrow> Inl e
                      | Inr (rc, w1) \<Rightarrow> Inr w1))
       (take (PLUGIN_DEP_MAX E) (plugin_depends (objs w plugin))) w"

subsection \<open>plugin\_register\<close>

text \<open>\<^verbatim>\<open>basename\<close> of \<^verbatim>\<open>string.h\<close> (GNU): what follows the last slash.\<close>

definition basename :: "string \<Rightarrow> string" where
  "basename path = rev (takeWhile (\<lambda>c. c \<noteq> CHR ''/'') (rev path))"

text \<open>
  The name of the plugin after the first \<^verbatim>\<open>if\<close> of \<^verbatim>\<open>plugin_register\<close>: a plugin without
  a name gets the base name of its shared object (not in a static build), or
  \<^verbatim>\<open>"unknown"\<close>.
\<close>

definition default_name :: "'u plugin_env \<Rightarrow> plugin_ptr \<Rightarrow> cstring \<Rightarrow> cstring" where
  "default_name E plugin name =
     (case name of
        NULL \<Rightarrow>
          (case (if ENABLE_STATIC E then None else map_option basename (dladdr E plugin)) of
             Some n \<Rightarrow> Str n
           | None \<Rightarrow> Str ''unknown'')
      | _ \<Rightarrow> name)"

text \<open>
  The body of \<^verbatim>\<open>plugin_register\<close>, \<open>ctor\<close> being the run of a constructor inside the
  \<^verbatim>\<open>dlopen\<close> calls of the dependency resolution.  The result is the return code and the
  new state.  A NULL plugin gives 1.  \<^verbatim>\<open>strdup\<close> reads the name and is taken to succeed;
  the copy, trimmed, is written to \<^verbatim>\<open>plugin->name\<close> of the object before the lookup, and
  on the path of a name that is found \<^verbatim>\<open>free(plugin->name)\<close> frees that copy, which leaves
  the pointer in the object dangling.
\<close>

definition register_body ::
  "(plugin_ptr \<Rightarrow> 'u pstate \<Rightarrow> fault + 'u pstate) \<Rightarrow> 'u plugin_env \<Rightarrow> plugin_ptr option
     \<Rightarrow> 'u pstate \<Rightarrow> fault + (int \<times> 'u pstate)" where
  "register_body ctor E plugin w =
     (case plugin of
        None \<Rightarrow> Inr (1, w)
      | Some p \<Rightarrow>
          (case default_name E p (plugin_name (objs w p)) of
             Str n \<Rightarrow>
               (let w1 = w\<lparr>objs := (objs w)(p := (objs w p)\<lparr>plugin_name := Str (trim_ext n)\<rparr>)\<rparr>
                in case plugin_find E (Some (trim_ext n)) w1 of
                     Inl e \<Rightarrow> Inl e
                   | Inr (Some q) \<Rightarrow>
                       Inr (0, w1\<lparr>objs := (objs w1)(p := (objs w1 p)\<lparr>plugin_name := Freed\<rparr>)\<rparr>)
                   | Inr None \<Rightarrow>
                       (case (if ENABLE_STATIC E then Inr w1
                              else check_plugin_depends ctor E p w1) of
                          Inl e \<Rightarrow> Inl e
                        | Inr w2 \<Rightarrow>
                            Inr (0, w2\<lparr>plugins := plugins w2 @ [p],
                                       pcalls := pcalls w2 @ [Registered p]\<rparr>)))
           | _ \<Rightarrow> Inl BadPointer))"

text \<open>
  The constructor of a plugin calls \<^verbatim>\<open>plugin_register\<close> on its plugin and drops the return
  code.  \<open>run_ctor n\<close> is the run of a constructor in which at most \<open>n\<close> registrations are
  nested, and \<open>plugin_register n\<close> the function with that bound for the constructors it
  sets off.  In a static build no constructor runs inside \<^verbatim>\<open>plugin_register\<close>.
\<close>

primrec run_ctor ::
  "nat \<Rightarrow> 'u plugin_env \<Rightarrow> plugin_ptr \<Rightarrow> 'u pstate \<Rightarrow> fault + 'u pstate" where
  "run_ctor 0 E p w = Inl OutOfFuel"
| "run_ctor (Suc n) E p w =
     (case register_body (run_ctor n E) E (Some p) w of
        Inl e \<Rightarrow> Inl e
      | Inr (rc, w1) \<Rightarrow> Inr w1)"

definition plugin_register ::
  "nat \<Rightarrow> 'u plugin_env \<Rightarrow> plugin_ptr option \<Rightarrow> 'u pstate \<Rightarrow> fault + (int \<times> 'u pstate)" where
  "plugin_register n E plugin w = register_body (run_ctor n E) E plugin w"

text \<open>The constructors of several plugins, run one after another.\<close>

definition plugin_register_all ::
  "nat \<Rightarrow> 'u plugin_env \<Rightarrow> plugin_ptr list \<Rightarrow> 'u pstate \<Rightarrow> fault + 'u pstate" where
  "plugin_register_all n E ps w = fold_res (run_ctor (Suc n) E) ps w"

text \<open>The plugins linked into the list according to what the dispatcher has done, in order.\<close>

fun registered :: "plugin_call list \<Rightarrow> plugin_ptr list" where
  "registered [] = []"
| "registered (Registered p # tr) = p # registered tr"
| "registered (c # tr) = registered tr"

text \<open>
  A state comes after another by linking plugins at the tail: what the dispatcher has done
  is what it had done before and more, and the list is the list before followed by the
  plugins linked since, in the order in which they were linked.
\<close>

definition appends :: "'u pstate \<Rightarrow> 'u pstate \<Rightarrow> bool" where
  "appends w w' \<longleftrightarrow>
     take (length (pcalls w)) (pcalls w') = pcalls w
     \<and> plugins w' = plugins w @ registered (drop (length (pcalls w)) (pcalls w'))"

text \<open>Every plugin in the list has a name that can be read.\<close>

definition names_valid :: "'u pstate \<Rightarrow> bool" where
  "names_valid w =
     list_all (\<lambda>q. case plugin_name (objs w q) of Str n \<Rightarrow> True | _ \<Rightarrow> False) (plugins w)"

text \<open>
  The name under which \<^verbatim>\<open>plugin_register\<close> looks a plugin up and lists it: the trimmed
  copy of its name, or of the default name.
\<close>

definition registered_name :: "'u plugin_env \<Rightarrow> 'u pstate \<Rightarrow> plugin_ptr \<Rightarrow> cstring" where
  "registered_name E w p =
     (case default_name E p (plugin_name (objs w p)) of
        Str n \<Rightarrow> Str (trim_ext n)
      | c \<Rightarrow> c)"

text \<open>The shared objects that \<^verbatim>\<open>dlopen\<close> can load and has not loaded yet.\<close>

definition loadable :: "'u plugin_env \<Rightarrow> 'u pstate \<Rightarrow> string set" where
  "loadable E w = {f. dl_ctors E f \<noteq> None \<and> f \<notin> set (loaded w)}"

subsection \<open>plugin\_run\_hook\<close>

text \<open>
  The body of the loop over the plugins, and the function.  The debug message of the loop
  is left out.
\<close>

definition hook_arg_of :: "'u pstate \<Rightarrow> hook_point_t \<Rightarrow> nat \<Rightarrow> plugin_ptr \<Rightarrow> nat" where
  "hook_arg_of w no arg p = (if arg \<noteq> 0 then arg else hook_arg (plugin_hook (objs w p) no))"

definition run_hook_cb ::
  "hook_point_t \<Rightarrow> nat \<Rightarrow> plugin_ptr \<Rightarrow> 'u pstate \<Rightarrow> 'u pstate" where
  "run_hook_cb no arg p w =
     (case hook_cb (plugin_hook (objs w p) no) of
        None \<Rightarrow> w
      | Some cb \<Rightarrow>
          w\<lparr>sys := cb (hook_arg_of w no arg p) (sys w),
            pcalls := pcalls w @ [HookCb p no (hook_arg_of w no arg p)]\<rparr>)"

definition plugin_run_hook ::
  "'u plugin_env \<Rightarrow> hook_point_t \<Rightarrow> nat \<Rightarrow> 'u pstate \<Rightarrow> 'u pstate" where
  "plugin_run_hook E no arg w =
     (let w1 = fold (run_hook_cb no arg) (plugins w) w;
          w2 = (if no \<ge> HOOK_MOUNT_ERROR E then
                  w1\<lparr>sys := cond_set_oneshot E (hook_cond E no) (sys w1),
                     pcalls := pcalls w1 @ [CondSetOneshot (hook_cond E no)]\<rparr>
                else w1)
      in w2\<lparr>sys := step_all E {SVC_TYPE_RUNTASK} (sys w2),
            pcalls := pcalls w2 @ [ServiceStepAll {SVC_TYPE_RUNTASK}]\<rparr>)"

definition plugin_run_hooks :: "'u plugin_env \<Rightarrow> hook_point_t \<Rightarrow> 'u pstate \<Rightarrow> 'u pstate" where
  "plugin_run_hooks E no w = plugin_run_hook E no 0 w"

text \<open>
  What the callbacks of the plugins at a hook point do to the rest of the system when they
  run one after another in the order of a list.
\<close>

definition run_callbacks ::
  "'u pstate \<Rightarrow> hook_point_t \<Rightarrow> nat \<Rightarrow> plugin_ptr list \<Rightarrow> 'u \<Rightarrow> 'u" where
  "run_callbacks w no arg ps u =
     fold (\<lambda>p u. case hook_cb (plugin_hook (objs w p) no) of
                   None \<Rightarrow> u
                 | Some cb \<Rightarrow> cb (hook_arg_of w no arg p) u) ps u"

section \<open>TTY handling: tty.c\<close>

subsection \<open>TTY records, the registry and the system\<close>

text \<open>
  \<^verbatim>\<open>finit_tty_t\<close> and \<^verbatim>\<open>tty_node_t\<close> (tty.h, absent) with the fields tty.c uses.  A string
  pointer that may be NULL is an option; \<^verbatim>\<open>args\<close> is the array of \<^verbatim>\<open>TTY_MAX_ARGS\<close> string
  pointers; \<^verbatim>\<open>runlevels\<close> is the bit mask of \<^verbatim>\<open>conf_parse_runlevels\<close>.
\<close>

record finit_tty_t =
  tty_name :: string
  tty_baud :: "string option"
  tty_term :: "string option"
  tty_noclear :: bool
  tty_nowait :: bool
  tty_runlevels :: nat
  tty_cmd :: "string option"
  tty_args :: "string option list"
  tty_rlimit :: "nat list"
  tty_pid :: int

record tty_node_t =
  tty_data :: finit_tty_t
  tty_dirty :: int

text \<open>The signals tty.c and the supervisor send, and the system calls tty.c makes.\<close>

datatype signal = SIGTERM | SIGKILL

datatype sys_call =
    Kill int signal
  | Waitpid int
  | RunGetty string
  | RunGetty2 string string

text \<open>
  The state: \<^verbatim>\<open>tty_list\<close> from its head, the global \<^verbatim>\<open>runlevel\<close>, and the system calls made
  so far.
\<close>

record tstate =
  tty_list :: "tty_node_t list"
  runlevel :: nat
  tcalls :: "sys_call list"

text \<open>
  What tty.c takes from the system and from absent files: \<^verbatim>\<open>TTY_MAX_ARGS\<close> (tty.h);
  whether \<^verbatim>\<open>access(path, X_OK)\<close> succeeds; \<^verbatim>\<open>stat\<close> (\<open>None\<close> when it fails, else whether
  the file is a character device); the name read from
  \<^verbatim>\<open>/sys/class/tty/console/active\<close> (\<open>None\<close> when the file cannot be opened, \<open>Some None\<close>
  when nothing is read, else the line after \<^verbatim>\<open>chomp\<close>); \<^verbatim>\<open>conf_parse_runlevels\<close> and
  \<^verbatim>\<open>conf_changed\<close> (conf.c); whether \<^verbatim>\<open>calloc\<close> succeeds; for \<^verbatim>\<open>tty_exist\<close>, whether
  \<^verbatim>\<open>open\<close> succeeds and what \<^verbatim>\<open>tcgetattr\<close> returns; and the pid that \<^verbatim>\<open>run_getty\<close> and
  \<^verbatim>\<open>run_getty2\<close> return.
\<close>

record tty_env =
  TTY_MAX_ARGS :: nat
  access_X_OK :: "string \<Rightarrow> bool"
  stat_S_ISCHR :: "string \<Rightarrow> bool option"
  console_active :: "string option option"
  conf_parse_runlevels :: "string option \<Rightarrow> nat"
  conf_changed :: "string \<Rightarrow> bool"
  calloc_ok :: bool
  open_O_RDWR :: "string \<Rightarrow> bool"
  tcgetattr :: "string \<Rightarrow> int"
  run_getty :: "string \<Rightarrow> string option \<Rightarrow> string option \<Rightarrow> bool \<Rightarrow> bool \<Rightarrow> int"
  run_getty2 :: "string \<Rightarrow> string \<Rightarrow> string option list \<Rightarrow> bool \<Rightarrow> bool \<Rightarrow> int"

text \<open>The error numbers of \<^verbatim>\<open>errno.h\<close> on Linux that tty.c returns.\<close>

definition ENOMEM :: int where "ENOMEM = 12"
definition EINVAL :: int where "EINVAL = 22"

subsection \<open>canonicalize\<close>

text \<open>
  The result is written to a static buffer of 80 bytes, so it has at most 79 characters.
  \<^verbatim>\<open>_PATH_DEV\<close> is \<^verbatim>\<open>/dev/\<close>.  \<open>None\<close> is NULL.
\<close>

definition PATH_DEV :: string where "PATH_DEV = ''/dev/''"

definition canonicalize :: "tty_env \<Rightarrow> string option \<Rightarrow> string option" where
  "canonicalize E tty =
     (case tty of
        None \<Rightarrow> None
      | Some t0 \<Rightarrow>
          (case (if t0 = ''@console'' then
                   (case console_active E of
                      None \<Rightarrow> None
                    | Some None \<Rightarrow> Some t0
                    | Some (Some l) \<Rightarrow> Some l)
                 else Some t0) of
             None \<Rightarrow> None
           | Some t \<Rightarrow>
               (let path = take 79 t in
                case stat_S_ISCHR E path of
                  Some chr \<Rightarrow> if chr then Some path else None
                | None \<Rightarrow>
                    if prefix PATH_DEV path then Some path
                    else
                      (let path2 = take 79 (PATH_DEV @ t) in
                       case stat_S_ISCHR E path2 of
                         None \<Rightarrow> Some path2
                       | Some chr \<Rightarrow> if chr then Some path2 else None))))"

subsection \<open>Lookup and counting\<close>

definition tty_find :: "tstate \<Rightarrow> string \<Rightarrow> nat option" where
  "tty_find w dev = find_first (\<lambda>entry. tty_name (tty_data entry) = dev) (tty_list w)"

definition tty_num :: "tstate \<Rightarrow> nat" where
  "tty_num w = length (tty_list w)"

definition tty_num_active :: "tstate \<Rightarrow> nat" where
  "tty_num_active w = length (filter (\<lambda>entry. tty_pid (tty_data entry) \<noteq> 0) (tty_list w))"

definition tty_find_by_pid :: "tstate \<Rightarrow> int \<Rightarrow> nat option" where
  "tty_find_by_pid w pid = find_first (\<lambda>entry. tty_pid (tty_data entry) = pid) (tty_list w)"

subsection \<open>tty\_register\<close>

text \<open>The tokens that successive calls of \<^verbatim>\<open>strtok(line, " \t")\<close> return.\<close>

definition is_delim :: "char \<Rightarrow> bool" where
  "is_delim c = (c = CHR '' '' \<or> c = CHR 0x09)"

fun split_tokens :: "string \<Rightarrow> string \<Rightarrow> string list" where
  "split_tokens [] cur = (if cur = [] then [] else [cur])"
| "split_tokens (c # cs) cur =
     (if is_delim c then (if cur = [] then split_tokens cs [] else cur # split_tokens cs [])
      else split_tokens cs (cur @ [c]))"

text \<open>
  After the first \<^verbatim>\<open>strtok\<close> the string at \<^verbatim>\<open>line\<close> ends behind the first token: it is the
  leading delimiters and that token.
\<close>

definition line_after_strtok :: "string \<Rightarrow> string" where
  "line_after_strtok line =
     takeWhile is_delim line @ takeWhile (\<lambda>c. \<not> is_delim c) (dropWhile is_delim line)"

text \<open>
  The first loop: \<^verbatim>\<open>noclear\<close> and \<^verbatim>\<open>nowait\<close> set their flag, any other token is stored in
  \<^verbatim>\<open>args\<close>, and the loop ends when \<^verbatim>\<open>args\<close> is full.
\<close>

fun collect_args :: "nat \<Rightarrow> string list \<Rightarrow> bool \<times> bool \<times> string list \<Rightarrow> bool \<times> bool \<times> string list" where
  "collect_args mx [] acc = acc"
| "collect_args mx (tok # toks) (noclear, nowait, args) =
     (if length args < mx then
        (if tok = ''noclear'' then collect_args mx toks (True, nowait, args)
         else if tok = ''nowait'' then collect_args mx toks (noclear, True, args)
         else collect_args mx toks (noclear, nowait, args @ [tok]))
      else (noclear, nowait, args))"

text \<open>The local variables that the second loop sets.\<close>

record tty_parse =
  p_dev :: "string option"
  p_cmd :: "string option"
  p_baud :: "string option"
  p_term :: "string option"
  p_runlevels :: "string option"

definition isdigit :: "char \<Rightarrow> bool" where
  "isdigit c = (c \<in> set ''0123456789'')"

text \<open>One round of the second loop, for the argument \<open>a\<close> at index \<open>i\<close> of \<open>num\<close>.\<close>

definition scan_arg :: "tty_env \<Rightarrow> string \<Rightarrow> nat \<Rightarrow> nat \<Rightarrow> string \<Rightarrow> tty_parse \<Rightarrow> tty_parse" where
  "scan_arg E line num i a st =
     (if p_dev st = None \<and> p_cmd st = None then
        (let st1 = (if take 1 a = ''['' then st\<lparr>p_runlevels := Some (line_after_strtok line)\<rparr> else st);
             st2 = (if a = ''@console'' then st1\<lparr>p_dev := Some a\<rparr> else st1);
             st3 = (if take 4 a = ''/dev'' then st2\<lparr>p_dev := Some a\<rparr> else st2);
             st4 = (if take 3 a = ''tty'' then st3\<lparr>p_dev := Some a\<rparr> else st3)
         in if access_X_OK E a then st4\<lparr>p_cmd := Some a\<rparr> else st4)
      else if p_dev st \<noteq> None \<and> (case a of c # _ \<Rightarrow> isdigit c | [] \<Rightarrow> False) then
        st\<lparr>p_baud := Some a\<rparr>
      else
        (let st1 = (if p_dev st \<noteq> None \<and> i + 1 = num then st\<lparr>p_term := Some a\<rparr> else st)
         in if p_cmd st1 \<noteq> None then
              (let st2 = (if take 4 a = ''/dev'' then st1\<lparr>p_dev := Some a\<rparr> else st1)
               in if take 3 a = ''tty'' then st2\<lparr>p_dev := Some a\<rparr> else st2)
            else st1))"

definition scan_args :: "tty_env \<Rightarrow> string \<Rightarrow> string list \<Rightarrow> tty_parse" where
  "scan_args E line args =
     fold (\<lambda>i. scan_arg E line (length args) i (args ! i)) [0..<length args]
       \<lparr>p_dev = None, p_cmd = None, p_baud = None, p_term = None, p_runlevels = None\<rparr>"

text \<open>A node as \<^verbatim>\<open>calloc\<close> returns it.\<close>

definition calloc_node :: "tty_env \<Rightarrow> tty_node_t" where
  "calloc_node E =
     \<lparr>tty_data =
        \<lparr>tty_name = [], tty_baud = None, tty_term = None, tty_noclear = False,
         tty_nowait = False, tty_runlevels = 0, tty_cmd = None,
         tty_args = replicate (TTY_MAX_ARGS E) None, tty_rlimit = [], tty_pid = 0\<rparr>,
      tty_dirty = 0\<rparr>"

text \<open>
  For an external getty: the command, and its arguments copied from index 1 on, index 1
  holding the base name of the command; the entry behind the one after the last copy is
  set to NULL.
\<close>

definition external_getty :: "string \<Rightarrow> string list \<Rightarrow> finit_tty_t \<Rightarrow> finit_tty_t" where
  "external_getty cmd args d =
     (let num = length args;
          args1 = args[1 := basename cmd];
          copied = fold (\<lambda>i a. a[i - 1 := Some (args1 ! i)]) [1..<num] (tty_args d)
      in d\<lparr>tty_cmd := Some cmd, tty_args := copied[num := None]\<rparr>)"

text \<open>The two loops over the line: the flags, the arguments and the local variables.\<close>

definition tty_tokens :: "tty_env \<Rightarrow> string \<Rightarrow> bool \<times> bool \<times> string list" where
  "tty_tokens E l = collect_args (TTY_MAX_ARGS E) (split_tokens l []) (False, False, [])"

definition tty_scan :: "tty_env \<Rightarrow> string \<Rightarrow> tty_parse" where
  "tty_scan E l = scan_args E l (snd (snd (tty_tokens E l)))"

text \<open>
  The assignments to the entry, which is either the node found or a new one: the fields
  of \<^verbatim>\<open>data\<close> taken from the line, the limits, and the dirty mark, which is 1 when the
  file is given and changed and 0 otherwise.  The pid is not assigned.
\<close>

definition tty_fill ::
  "tty_env \<Rightarrow> string \<Rightarrow> nat list \<Rightarrow> string option \<Rightarrow> string \<Rightarrow> tty_node_t \<Rightarrow> tty_node_t" where
  "tty_fill E l rlimit file dev entry =
     (let (noclear, nowait, args) = tty_tokens E l;
          st = tty_scan E l;
          d1 = (tty_data entry)
                 \<lparr>tty_name := dev, tty_baud := p_baud st, tty_term := p_term st,
                  tty_noclear := noclear, tty_nowait := nowait,
                  tty_runlevels := conf_parse_runlevels E (p_runlevels st)\<rparr>;
          d2 = (case p_cmd st of Some cmd \<Rightarrow> external_getty cmd args d1 | None \<Rightarrow> d1);
          d3 = d2\<lparr>tty_rlimit := rlimit\<rparr>
      in \<lparr>tty_data = d3,
          tty_dirty = (case file of
                         Some f \<Rightarrow> if conf_changed E f then 1 else 0
                       | None \<Rightarrow> 0)\<rparr>)"

text \<open>
  The result is the return code and the new state.  The pointers \<^verbatim>\<open>line\<close> and \<^verbatim>\<open>file\<close>
  may be NULL.  A device that \<^verbatim>\<open>tty_find\<close> finds is updated where it is; otherwise a new
  node is allocated and put at the head of the list.  Failing \<^verbatim>\<open>strdup\<close> calls are not
  followed.
\<close>

definition tty_register ::
  "tty_env \<Rightarrow> string option \<Rightarrow> nat list \<Rightarrow> string option \<Rightarrow> tstate \<Rightarrow> int \<times> tstate" where
  "tty_register E line rlimit file w =
     (case line of
        None \<Rightarrow> (EINVAL, w)
      | Some l \<Rightarrow>
          (case canonicalize E (p_dev (tty_scan E l)) of
             None \<Rightarrow> (EINVAL, w)
           | Some dev \<Rightarrow>
               (case tty_find w dev of
                  Some i \<Rightarrow>
                    (0, w\<lparr>tty_list :=
                            (tty_list w)[i := tty_fill E l rlimit file dev (tty_list w ! i)]\<rparr>)
                | None \<Rightarrow>
                    if \<not> calloc_ok E then (ENOMEM, w)
                    else
                      (0, w\<lparr>tty_list :=
                              tty_fill E l rlimit file dev (calloc_node E) # tty_list w\<rparr>))))"

subsection \<open>tty\_unregister\<close>

text \<open>The node is given by its position in the list; \<open>None\<close> is the NULL pointer.\<close>

definition tty_unregister :: "nat option \<Rightarrow> tstate \<Rightarrow> int \<times> tstate" where
  "tty_unregister tty w =
     (case tty of
        None \<Rightarrow> (EINVAL, w)
      | Some i \<Rightarrow> (0, w\<lparr>tty_list := take i (tty_list w) @ drop (Suc i) (tty_list w)\<rparr>))"

subsection \<open>tty\_start, tty\_stop, tty\_enabled, tty\_action\<close>

definition tty_exist :: "tty_env \<Rightarrow> string \<Rightarrow> int" where
  "tty_exist E dev = (if \<not> open_O_RDWR E dev then 1 else tcgetattr E dev)"

text \<open>These work on one TTY record and on the list of system calls made.\<close>

definition tty_start :: "tty_env \<Rightarrow> finit_tty_t \<Rightarrow> sys_call list \<Rightarrow> finit_tty_t \<times> sys_call list" where
  "tty_start E tty cs =
     (if tty_pid tty \<noteq> 0 then (tty, cs)
      else case canonicalize E (Some (tty_name tty)) of
        None \<Rightarrow> (tty, cs)
      | Some dev \<Rightarrow>
          if tty_exist E dev \<noteq> 0 then (tty, cs)
          else case tty_cmd tty of
            None \<Rightarrow>
              (tty\<lparr>tty_pid := run_getty E dev (tty_baud tty) (tty_term tty)
                                (tty_noclear tty) (tty_nowait tty)\<rparr>,
               cs @ [RunGetty dev])
          | Some cmd \<Rightarrow>
              (tty\<lparr>tty_pid := run_getty2 E dev cmd (tty_args tty)
                                (tty_noclear tty) (tty_nowait tty)\<rparr>,
               cs @ [RunGetty2 dev cmd]))"

definition tty_stop :: "finit_tty_t \<Rightarrow> sys_call list \<Rightarrow> finit_tty_t \<times> sys_call list" where
  "tty_stop tty cs =
     (if tty_pid tty = 0 then (tty, cs)
      else (tty\<lparr>tty_pid := 0\<rparr>, cs @ [Kill (tty_pid tty) SIGKILL, Waitpid (tty_pid tty)]))"

text \<open>\<^verbatim>\<open>ISSET(tty->runlevels, runlevel)\<close>: bit \<^verbatim>\<open>runlevel\<close> of the mask.\<close>

definition tty_enabled :: "nat \<Rightarrow> finit_tty_t option \<Rightarrow> bool" where
  "tty_enabled rl tty = (case tty of None \<Rightarrow> False | Some t \<Rightarrow> bit (tty_runlevels t) rl)"

definition tty_action ::
  "tty_env \<Rightarrow> nat \<Rightarrow> tty_node_t \<Rightarrow> sys_call list \<Rightarrow> tty_node_t \<times> sys_call list" where
  "tty_action E rl tty cs =
     (let (d, cs') = (if \<not> tty_enabled rl (Some (tty_data tty)) then tty_stop (tty_data tty) cs
                      else tty_start E (tty_data tty) cs)
      in (tty\<lparr>tty_data := d\<rparr>, cs'))"

subsection \<open>tty\_mark, tty\_sweep and tty\_reload\<close>

definition tty_mark :: "tstate \<Rightarrow> tstate" where
  "tty_mark w = w\<lparr>tty_list := map (\<lambda>tty. tty\<lparr>tty_dirty := - 1\<rparr>) (tty_list w)\<rparr>"

text \<open>
  The loop of \<^verbatim>\<open>tty_sweep\<close> over the nodes: a clean node is passed over, a dirty one is
  stopped, and one marked \<open>-1\<close> is then unregistered.
\<close>

fun sweep_nodes :: "tty_node_t list \<Rightarrow> sys_call list \<Rightarrow> tty_node_t list \<times> sys_call list" where
  "sweep_nodes [] cs = ([], cs)"
| "sweep_nodes (tty # rest) cs =
     (if tty_dirty tty = 0 then
        (let (rest', cs') = sweep_nodes rest cs in (tty # rest', cs'))
      else
        (let (d, cs1) = tty_stop (tty_data tty) cs;
             (rest', cs') = sweep_nodes rest cs1
         in if tty_dirty tty = - 1 then (rest', cs')
            else (tty\<lparr>tty_data := d\<rparr> # rest', cs')))"

definition tty_sweep :: "tstate \<Rightarrow> tstate" where
  "tty_sweep w =
     (let (l, cs) = sweep_nodes (tty_list w) (tcalls w) in w\<lparr>tty_list := l, tcalls := cs\<rparr>)"

text \<open>The second loop of \<^verbatim>\<open>tty_reload\<close>: \<^verbatim>\<open>tty_action\<close> on every node, which is then clean.\<close>

fun reload_nodes ::
  "tty_env \<Rightarrow> nat \<Rightarrow> tty_node_t list \<Rightarrow> sys_call list \<Rightarrow> tty_node_t list \<times> sys_call list" where
  "reload_nodes E rl [] cs = ([], cs)"
| "reload_nodes E rl (tty # rest) cs =
     (let (tty1, cs1) = tty_action E rl tty cs;
          (rest', cs') = reload_nodes E rl rest cs1
      in (tty1\<lparr>tty_dirty := 0\<rparr> # rest', cs'))"

definition tty_reload :: "tty_env \<Rightarrow> string option \<Rightarrow> tstate \<Rightarrow> tstate" where
  "tty_reload E dev w =
     (case dev of
        Some d \<Rightarrow>
          (case tty_find w d of
             None \<Rightarrow> w
           | Some i \<Rightarrow>
               (let (tty1, cs1) = tty_action E (runlevel w) (tty_list w ! i) (tcalls w)
                in w\<lparr>tty_list := (tty_list w)[i := tty1\<lparr>tty_dirty := 0\<rparr>], tcalls := cs1\<rparr>))
      | None \<Rightarrow>
          (let w1 = tty_sweep w;
               (l, cs) = reload_nodes E (runlevel w1) (tty_list w1) (tcalls w1)
           in w1\<lparr>tty_list := l, tcalls := cs\<rparr>))"

text \<open>
  Every TTY of the registry that runs is enabled in the current runlevel.  The one place
  where tty.c gives a record a nonzero pid is \<^verbatim>\<open>tty_start\<close>, which the file calls from
  \<^verbatim>\<open>tty_action\<close> only, on a record that \<^verbatim>\<open>tty_enabled\<close> accepts.
\<close>

definition running_enabled :: "tstate \<Rightarrow> bool" where
  "running_enabled w =
     list_all (\<lambda>n. tty_pid (tty_data n) = 0 \<or> tty_enabled (runlevel w) (Some (tty_data n)))
       (tty_list w)"

section \<open>Sample data\<close>

text \<open>
  A concrete environment and state on which the functions are evaluated: three running
  services, \<^verbatim>\<open>foo\<close> (forking), \<^verbatim>\<open>bar\<close> and \<^verbatim>\<open>baz\<close> (changed by the reload), the
  condition of \<^verbatim>\<open>foo\<close> being \<open>ON\<close>, and a watch on \<^verbatim>\<open>/run\<close>; the same state with every
  condition \<open>OFF\<close>.  The record of \<^verbatim>\<open>foo\<close> holds pid 100, the process that launched the
  daemon and has exited since; the daemon's pidfile holds 4711.  The step of the sample
  supervisor marks as crashed a running record whose pid is 100.
\<close>

definition sample_ext :: "iwatch_path list ext" where
  "sample_ext =
     \<lparr>mkcond = (\<lambda>s. ''pid/'' @ svc_name s),
      svc_started = (\<lambda>s. s\<lparr>svc_is_starting := False\<rparr>),
      cond_path = (\<lambda>c. ''/run/finit/cond/'' @ c),
      pid_file_read = (\<lambda>f. if f = ''/run/foo.pid'' then 4711 else - 1),
      service_step_all =
        (\<lambda>t w. w\<lparr>svcs := map (\<lambda>s. if svc_state s = SVC_RUNNING_STATE \<and> svc_pid s = 100
                                   then s\<lparr>svc_state := SVC_CRASHED_STATE\<rparr> else s)
                             (svcs w)\<rparr>),
      iwatch_add = (\<lambda>iw p f. (\<lparr>iwp_wd = int (length iw) + 1, iwp_path = p\<rparr> # iw, 0)),
      iwatch_del = (\<lambda>iw e. removeAll e iw),
      iwatch_find_by_wd = (\<lambda>iw wd. find (\<lambda>e. iwp_wd e = wd) iw),
      iwatch_find_by_path = (\<lambda>iw p. find (\<lambda>e. iwp_path e = p) iw),
      glob = (\<lambda>p. GLOB_NOMATCH)\<rparr>"

definition svc_foo :: svc_t where
  "svc_foo =
     \<lparr>svc_name = ''foo'', svc_cmd = ''/sbin/food'', svc_pid = 100,
      svc_state = SVC_RUNNING_STATE, svc_pid_file = ''/run/foo.pid'',
      svc_is_forking = True, svc_is_changed = False, svc_is_starting = False\<rparr>"

definition svc_bar :: svc_t where
  "svc_bar =
     \<lparr>svc_name = ''bar'', svc_cmd = ''/sbin/bard'', svc_pid = 200,
      svc_state = SVC_RUNNING_STATE, svc_pid_file = ''/run/bar.pid'',
      svc_is_forking = False, svc_is_changed = False, svc_is_starting = False\<rparr>"

definition svc_baz :: svc_t where
  "svc_baz =
     \<lparr>svc_name = ''baz'', svc_cmd = ''/sbin/bazd'', svc_pid = 300,
      svc_state = SVC_RUNNING_STATE, svc_pid_file = ''/run/baz.pid'',
      svc_is_forking = False, svc_is_changed = True, svc_is_starting = False\<rparr>"

definition sample_world :: "iwatch_path list world" where
  "sample_world =
     \<lparr>svcs = [svc_foo, svc_bar, svc_baz],
      conds = (\<lambda>p. if p = ''/run/finit/cond/pid/foo'' then COND_ON else COND_OFF),
      calls = [],
      iw_pidfile = [\<lparr>iwp_wd = 1, iwp_path = ''/run''\<rparr>]\<rparr>"

definition sample_world_off :: "iwatch_path list world" where
  "sample_world_off = sample_world\<lparr>conds := (\<lambda>p. COND_OFF)\<rparr>"

definition ev_delete_foo :: inotify_event where
  "ev_delete_foo = \<lparr>ev_wd = 1, ev_mask = IN_DELETE, ev_name = ''foo.pid''\<rparr>"

definition ev_create_foo :: inotify_event where
  "ev_create_foo = \<lparr>ev_wd = 1, ev_mask = IN_CREATE, ev_name = ''foo.pid''\<rparr>"

definition ev_modify_bar :: inotify_event where
  "ev_modify_bar = \<lparr>ev_wd = 1, ev_mask = IN_MODIFY, ev_name = ''bar.pid''\<rparr>"

text \<open>
  For the dispatcher: an enumeration in which \<^verbatim>\<open>HOOK_MOUNT_ERROR\<close> is 2 and
  \<^verbatim>\<open>HOOK_BASEFS_UP\<close> is 4, a static build, and four plugin objects at the addresses 10, 20,
  30 and 40 whose callbacks write their tag and argument to a log; the fourth depends on the third.
  For the dynamic build: the same with the plugin path \<^verbatim>\<open>/lib/finit/plugins\<close>, in which the
  shared object \<^verbatim>\<open>charlie.so\<close> registers the third plugin.
\<close>

definition sample_plugin_env :: "(string \<times> nat) list plugin_env" where
  "sample_plugin_env =
     \<lparr>HOOK_MOUNT_ERROR = 2, HOOK_BASEFS_UP = 4,
      hook_cond = (\<lambda>no. if no = 2 then ''hook/mount/error''
                         else if no = 4 then ''hook/mount/all'' else ''hook/other''),
      PLUGIN_DEP_MAX = 10, CMD_SIZE = 256, ENABLE_STATIC = True,
      dladdr = (\<lambda>p. None), fisdir = (\<lambda>d. True),
      dl_ctors = (\<lambda>f. None),
      cond_set_oneshot = (\<lambda>c u. u @ [(c, 0)]),
      step_all = (\<lambda>t u. u)\<rparr>"

definition sample_dynamic_env :: "(string \<times> nat) list plugin_env" where
  "sample_dynamic_env =
     sample_plugin_env
       \<lparr>ENABLE_STATIC := False,
        dl_ctors := (\<lambda>f. if f = ''/lib/finit/plugins/charlie.so'' then Some [30] else None)\<rparr>"

definition no_hook :: "(string \<times> nat) list hook_t" where
  "no_hook = \<lparr>hook_cb = None, hook_arg = 0\<rparr>"

definition plugin_alpha :: "(string \<times> nat) list plugin_t" where
  "plugin_alpha =
     \<lparr>plugin_name = Str ''alpha.so'',
      plugin_hook = (\<lambda>no. if no = 4 then
                             \<lparr>hook_cb = Some (\<lambda>a u. u @ [(''alpha'', a)]), hook_arg = 7\<rparr>
                           else no_hook),
      plugin_depends = [], plugin_handle = None\<rparr>"

definition plugin_bravo :: "(string \<times> nat) list plugin_t" where
  "plugin_bravo =
     \<lparr>plugin_name = Str ''bravo.c'',
      plugin_hook = (\<lambda>no. if no = 2 then
                             \<lparr>hook_cb = Some (\<lambda>a u. u @ [(''bravo'', a)]), hook_arg = 8\<rparr>
                           else no_hook),
      plugin_depends = [], plugin_handle = None\<rparr>"

definition plugin_charlie :: "(string \<times> nat) list plugin_t" where
  "plugin_charlie =
     \<lparr>plugin_name = Str ''charlie'',
      plugin_hook = (\<lambda>no. if no = 4 then
                             \<lparr>hook_cb = Some (\<lambda>a u. u @ [(''charlie'', a)]), hook_arg = 9\<rparr>
                           else no_hook),
      plugin_depends = [], plugin_handle = None\<rparr>"

definition plugin_delta :: "(string \<times> nat) list plugin_t" where
  "plugin_delta =
     \<lparr>plugin_name = Str ''delta.so'',
      plugin_hook = (\<lambda>no. if no = 4 then
                             \<lparr>hook_cb = Some (\<lambda>a u. u @ [(''delta'', a)]), hook_arg = 6\<rparr>
                           else no_hook),
      plugin_depends = [''charlie''], plugin_handle = None\<rparr>"

definition sample_objs :: "plugin_ptr \<Rightarrow> (string \<times> nat) list plugin_t" where
  "sample_objs a =
     (if a = 10 then plugin_alpha else if a = 20 then plugin_bravo
      else if a = 30 then plugin_charlie else plugin_delta)"

definition empty_pstate :: "(string \<times> nat) list pstate" where
  "empty_pstate =
     \<lparr>objs = sample_objs, plugins = [], plugpath = None, loaded = [], sys = [], pcalls = []\<rparr>"

definition dynamic_pstate :: "(string \<times> nat) list pstate" where
  "dynamic_pstate = empty_pstate\<lparr>plugpath := Some ''/lib/finit/plugins''\<rparr>"

text \<open>
  The state after the constructor of the fourth plugin has run in the dynamic build, the
  state after the constructor of the first plugin has run in a static build, and the
  state after the constructors of the first three have.
\<close>

definition delta_pstate :: "(string \<times> nat) list pstate" where
  "delta_pstate =
     dynamic_pstate
       \<lparr>objs := sample_objs
          (40 := plugin_delta\<lparr>plugin_name := Str ''delta''\<rparr>,
           30 := plugin_charlie\<lparr>plugin_handle := Some ''/lib/finit/plugins/charlie.so''\<rparr>),
        plugins := [30, 40],
        loaded := [''/lib/finit/plugins/charlie.so''],
        pcalls := [Dlopen ''/lib/finit/plugins/charlie.so'', Registered 30, Registered 40]\<rparr>"

definition alpha_pstate :: "(string \<times> nat) list pstate" where
  "alpha_pstate =
     empty_pstate
       \<lparr>objs := sample_objs(10 := plugin_alpha\<lparr>plugin_name := Str ''alpha''\<rparr>),
        plugins := [10],
        pcalls := [Registered 10]\<rparr>"

definition static_pstate :: "(string \<times> nat) list pstate" where
  "static_pstate =
     empty_pstate
       \<lparr>objs := sample_objs
          (10 := plugin_alpha\<lparr>plugin_name := Str ''alpha''\<rparr>,
           20 := plugin_bravo\<lparr>plugin_name := Str ''bravo''\<rparr>,
           30 := plugin_charlie),
        plugins := [10, 20, 30],
        pcalls := [Registered 10, Registered 20, Registered 30]\<rparr>"

text \<open>
  For the TTYs: a system in which \<^verbatim>\<open>/dev/ttyS0\<close> and \<^verbatim>\<open>/dev/tty1\<close> are character devices
  and no file has changed, a registry with a getty of pid 100 on \<^verbatim>\<open>/dev/ttyS0\<close> that
  is allowed in runlevel 2 only, in a given runlevel, and the node that the line
  \<^verbatim>\<open>tty1 nowait\<close> registers.
\<close>

definition sample_tty_env :: tty_env where
  "sample_tty_env =
     \<lparr>TTY_MAX_ARGS = 16,
      access_X_OK = (\<lambda>p. p = ''/sbin/getty''),
      stat_S_ISCHR = (\<lambda>p. if p = ''/dev/ttyS0'' \<or> p = ''/dev/tty1'' then Some True else None),
      console_active = Some (Some ''ttyS0''),
      conf_parse_runlevels = (\<lambda>r. if r = Some ''[2]'' then 4 else 60),
      conf_changed = (\<lambda>f. False),
      calloc_ok = True,
      open_O_RDWR = (\<lambda>d. True),
      tcgetattr = (\<lambda>d. 0),
      run_getty = (\<lambda>dev baud term noclear nowait. 500),
      run_getty2 = (\<lambda>dev cmd args noclear nowait. 600)\<rparr>"

definition node_ttyS0 :: tty_node_t where
  "node_ttyS0 =
     \<lparr>tty_data =
        \<lparr>tty_name = ''/dev/ttyS0'', tty_baud = Some ''115200'', tty_term = Some ''vt100'',
         tty_noclear = False, tty_nowait = False, tty_runlevels = 4, tty_cmd = None,
         tty_args = replicate 16 None, tty_rlimit = [], tty_pid = 100\<rparr>,
      tty_dirty = 0\<rparr>"

definition node_tty1 :: tty_node_t where
  "node_tty1 =
     \<lparr>tty_data =
        \<lparr>tty_name = ''/dev/tty1'', tty_baud = None, tty_term = None,
         tty_noclear = False, tty_nowait = True, tty_runlevels = 60, tty_cmd = None,
         tty_args = replicate 16 None, tty_rlimit = [], tty_pid = 0\<rparr>,
      tty_dirty = 0\<rparr>"

definition sample_tstate :: "nat \<Rightarrow> tstate" where
  "sample_tstate rl = \<lparr>tty_list = [node_ttyS0], runlevel = rl, tcalls = []\<rparr>"

section \<open>Properties\<close>

lemma strchr_None_iff: "strchr s c = None \<longleftrightarrow> c \<notin> set s"
  by (induction s) auto

lemma strchr_Some_hd: "strchr s c = Some r \<Longrightarrow> \<exists>t. r = c # t"
  by (induction s) (auto split: if_splits)

lemma strchr_again: "strchr s c = Some r \<Longrightarrow> strchr r c = Some r"
  by (drule strchr_Some_hd) auto

text \<open>
  Claim C1.  Let the path contain \<^verbatim>\<open>run/\<close> and let the remainder be what follows its
  first occurrence.  A remainder that goes below the first subdirectory has a slash after
  that subdirectory; every such path is refused with \<open>-1\<close> and the watcher state is
  returned as it was, \<^verbatim>\<open>iwatch_add\<close> not being called.  In particular this holds when the
  remainder has two or more slashes.  A path at most one level below \<^verbatim>\<open>run/\<close> (no slash
  in the remainder) is handed to \<^verbatim>\<open>iwatch_add\<close> with \<^verbatim>\<open>IN_ONLYDIR\<close>, whose result is
  returned.
\<close>

theorem pidfile_add_path_depth:
  assumes "strstr path ''run/'' = Some p"
  shows "(CHR ''/'' \<in> set (drop 4 p) \<longrightarrow> pidfile_add_path add iw path = (iw, - 1))
       \<and> (2 \<le> count_list (drop 4 p) CHR ''/'' \<longrightarrow> pidfile_add_path add iw path = (iw, - 1))
       \<and> (CHR ''/'' \<notin> set (drop 4 p) \<longrightarrow>
            pidfile_add_path add iw path = add iw path IN_ONLYDIR)"
proof -
  have deep: "pidfile_add_path add iw path = (iw, - 1)" if "CHR ''/'' \<in> set (drop 4 p)"
  proof -
    from that obtain r where r: "strchr (drop 4 p) CHR ''/'' = Some r"
      using strchr_None_iff [of "drop 4 p" "CHR ''/''"] by (cases "strchr (drop 4 p) CHR ''/''") auto
    then have "strchr r CHR ''/'' = Some r" by (rule strchr_again)
    with r assms show ?thesis by (simp add: pidfile_add_path_def)
  qed
  have two: "CHR ''/'' \<in> set (drop 4 p)" if "2 \<le> count_list (drop 4 p) CHR ''/''"
    using that count_list_0_iff [of "drop 4 p" "CHR ''/''"] by (cases "CHR ''/'' \<in> set (drop 4 p)") auto
  have flat: "pidfile_add_path add iw path = add iw path IN_ONLYDIR"
    if "CHR ''/'' \<notin> set (drop 4 p)"
    using that assms strchr_None_iff [of "drop 4 p" "CHR ''/''"]
    by (simp add: pidfile_add_path_def)
  from deep two flat show ?thesis by blast
qed

text \<open>
  With an \<^verbatim>\<open>iwatch_add\<close> that records the path and returns 0: \<^verbatim>\<open>/run/a/b/c\<close> and
  \<^verbatim>\<open>/run/a/b\<close> are refused, \<^verbatim>\<open>/var/run/dbus\<close> is watched.
\<close>

theorem pidfile_add_path_depth_witness:
  "strstr ''/run/a/b/c'' ''run/'' = Some ''run/a/b/c''
   \<and> pidfile_add_path (\<lambda>iw p f. (p # iw, 0)) [] ''/run/a/b/c'' = ([], - 1)
   \<and> strstr ''/run/a/b'' ''run/'' = Some ''run/a/b''
   \<and> pidfile_add_path (\<lambda>iw p f. (p # iw, 0)) [] ''/run/a/b'' = ([], - 1)
   \<and> strstr ''/var/run/dbus'' ''run/'' = Some ''run/dbus''
   \<and> pidfile_add_path (\<lambda>iw p f. (p # iw, 0)) [] ''/var/run/dbus'' = ([''/var/run/dbus''], 0)"
proof -
  have a: "strstr ''/run/a/b/c'' ''run/'' = Some ''run/a/b/c''" by simp
  have b: "strstr ''/var/run/dbus'' ''run/'' = Some ''run/dbus''" by simp
  have c: "strstr ''/run/a/b'' ''run/'' = Some ''run/a/b''" by simp
  show ?thesis
    using pidfile_add_path_depth [OF a, of "\<lambda>iw p f. (p # iw, 0)" "[]"]
          pidfile_add_path_depth [OF b, of "\<lambda>iw p f. (p # iw, 0)" "[]"]
          pidfile_add_path_depth [OF c, of "\<lambda>iw p f. (p # iw, 0)" "[]"] a b c
    by simp
qed

subsection \<open>The pidfile plugin\<close>

lemma find_first_Some: "find_first P xs = Some i \<Longrightarrow> i < length xs \<and> P (xs ! i)"
proof (induction xs arbitrary: i)
  case Nil then show ?case by simp
next
  case (Cons x xs)
  then show ?case by (auto split: if_splits)
qed

lemma ex_drop_suffix: "(\<exists>k\<le>length s. drop k s = t) \<longleftrightarrow> suffix t s"
proof
  assume "\<exists>k\<le>length s. drop k s = t"
  then show "suffix t s" using suffix_drop by blast
next
  assume "suffix t s"
  then obtain zs where "s = zs @ t" by (auto simp: suffix_def)
  then have "length zs \<le> length s \<and> drop (length zs) s = t" by simp
  then show "\<exists>k\<le>length s. drop k s = t" by blast
qed

lemma list_ex_upt: "list_ex P [0..<Suc n] \<longleftrightarrow> (\<exists>k\<le>n. P k)"
  unfolding list_ex_iff by (metis atLeast0LessThan lessThan_iff less_Suc_eq_le set_upt)

lemma fnmatch_literal:
  "\<forall>c\<in>set p. c \<noteq> CHR ''*'' \<and> c \<noteq> CHR ''?'' \<and> c \<noteq> CHR 0x5C \<Longrightarrow> fnmatch p s \<longleftrightarrow> s = p"
proof (induction p arbitrary: s)
  case Nil
  then show ?case by simp
next
  case (Cons a p)
  then show ?case by (cases s) auto
qed

lemma fnmatch_dot_pid: "fnmatch pat_dot_pid s \<longleftrightarrow> suffix ''.pid'' s"
proof -
  have lit: "fnmatch (CHR 0x5C # ''.pid'') t \<longleftrightarrow> t = ''.pid''" for t
    using fnmatch_literal [of "''pid''"] by (cases t) auto
  have "fnmatch pat_dot_pid s \<longleftrightarrow> (\<exists>k\<le>length s. fnmatch (CHR 0x5C # ''.pid'') (drop k s))"
    by (simp add: pat_dot_pid_def list_ex_upt del: upt_Suc fnmatch.simps(2))
       (simp add: list_ex_upt del: upt_Suc)
  also have "\<dots> \<longleftrightarrow> (\<exists>k\<le>length s. drop k s = ''.pid'')"
    unfolding lit ..
  finally show ?thesis by (simp add: ex_drop_suffix)
qed

lemma fnmatch_slash_pid: "fnmatch pat_slash_pid s \<longleftrightarrow> suffix ''/pid'' s"
proof -
  have lit: "fnmatch ''/pid'' t \<longleftrightarrow> t = ''/pid''" for t
    by (rule fnmatch_literal) simp
  have "fnmatch pat_slash_pid s \<longleftrightarrow> (\<exists>k\<le>length s. fnmatch ''/pid'' (drop k s))"
    unfolding pat_slash_pid_def by (subst fnmatch.simps(2)) (simp add: list_ex_upt del: upt_Suc fnmatch.simps(2))
  also have "\<dots> \<longleftrightarrow> (\<exists>k\<le>length s. drop k s = ''/pid'')"
    unfolding lit ..
  finally show ?thesis by (simp add: ex_drop_suffix)
qed

lemma pidfile_name_matches:
  assumes "suffix ''.pid'' name \<or> name = ''pid''"
  shows "fnmatch pat_dot_pid (dir @ ''/'' @ name) \<or> fnmatch pat_slash_pid (dir @ ''/'' @ name)"
proof -
  from assms consider "suffix ''.pid'' name" | "name = ''pid''" by blast
  then show ?thesis
  proof cases
    case 1
    then have "suffix ''.pid'' (dir @ ''/'' @ name)"
      using suffix_appendI [of "''.pid''" name "dir @ ''/''"] by simp
    then show ?thesis by (simp add: fnmatch_dot_pid)
  next
    case 2
    then have "suffix ''/pid'' (dir @ ''/'' @ name)" by (simp add: suffix_def)
    then show ?thesis by (simp add: fnmatch_slash_pid)
  qed
qed

lemma pidfile_callback_single: "pidfile_callback X (Some [ev]) w = pidfile_event X ev w"
  by (simp add: pidfile_callback_def)

lemma pidfile_fn_untruncated:
  "length (dir @ ''/'' @ name) < PATH_MAX \<Longrightarrow> take (PATH_MAX - 1) (dir @ ''/'' @ name) = dir @ ''/'' @ name"
  by simp

lemma pidfile_update_conds_found:
  assumes len: "length (dir @ ''/'' @ name) < PATH_MAX"
    and nm: "suffix ''.pid'' name \<or> name = ''pid''"
    and reg: "svc_find_by_pidfile w (dir @ ''/'' @ name) = Some i"
  shows "pidfile_update_conds X dir name emask w =
     (let cond = mkcond X (svcs w ! i) in
           if emask AND (IN_CREATE OR IN_ATTRIB OR IN_MODIFY OR IN_MOVED_TO) \<noteq> 0 then
             (let w1 = w\<lparr>svcs := (svcs w)[i := svc_started X (svcs w ! i)]\<rparr>;
                  w2 = (if svc_is_forking (svcs w1 ! i) then
                          (let pid = pid_file_read X (svc_pid_file (svcs w1 ! i)) in
                           w1\<lparr>svcs := (svcs w1)[i := (svcs w1 ! i)\<lparr>svc_pid := pid\<rparr>]\<rparr>)
                        else w1)
              in cond_set X cond w2)
           else if emask AND IN_DELETE \<noteq> 0 then cond_clear X cond w
           else w)"
proof -
  have m: "fnmatch pat_dot_pid (dir @ ''/'' @ name) \<or> fnmatch pat_slash_pid (dir @ ''/'' @ name)"
    using nm by (rule pidfile_name_matches)
  then have m': "(\<not> fnmatch pat_dot_pid (dir @ ''/'' @ name)
      \<and> \<not> fnmatch pat_slash_pid (dir @ ''/'' @ name)) = False"
    by blast
  show ?thesis
    unfolding pidfile_update_conds_def pidfile_fn_untruncated [OF len] Let_def m'
    using reg by simp
qed

lemma pidfile_callback_append:
  "pidfile_callback X (Some (pre @ evs)) w
     = pidfile_callback X (Some evs) (pidfile_callback X (Some pre) w)"
  by (simp add: pidfile_callback_def)

lemma pidfile_event_delete:
  assumes "ev_mask ev AND IN_ISDIR = 0" and "ev_mask ev AND IN_DELETE \<noteq> 0"
  shows "pidfile_event X ev v = v"
  using assms by (auto simp: pidfile_event_def split: option.splits)

lemma pidfile_event_acted:
  assumes nodir: "ev_mask ev AND IN_ISDIR = 0"
    and bits: "ev_mask ev AND (IN_CREATE OR IN_ATTRIB OR IN_MODIFY OR IN_MOVED_TO) \<noteq> 0"
    and nodel: "ev_mask ev AND IN_DELETE = 0"
    and watch: "iwatch_find_by_wd X (iw_pidfile v) (ev_wd ev) = Some iwp"
    and len: "length (iwp_path iwp @ ''/'' @ ev_name ev) < PATH_MAX"
    and nm: "suffix ''.pid'' (ev_name ev) \<or> ev_name ev = ''pid''"
    and reg: "svc_find_by_pidfile v (iwp_path iwp @ ''/'' @ ev_name ev) = Some i"
    and s': "s' = svc_started X (svcs v ! i)"
  shows "pidfile_event X ev v
     = cond_set X (mkcond X (svcs v ! i))
         (v\<lparr>svcs := (svcs v)[i := if svc_is_forking s'
                                   then s'\<lparr>svc_pid := pid_file_read X (svc_pid_file s')\<rparr>
                                   else s']\<rparr>)"
proof -
  have nz: "ev_mask ev \<noteq> 0" using bits by auto
  have i: "i < length (svcs v)"
    using reg find_first_Some [of _ "svcs v" i] by (simp add: svc_find_by_pidfile_def)
  have ev: "pidfile_event X ev v
      = pidfile_update_conds X (iwp_path iwp) (ev_name ev) (ev_mask ev) v"
    using bits nodel nz nodir watch by (simp add: pidfile_event_def)
  show ?thesis
    unfolding ev pidfile_update_conds_found [OF len nm reg]
    using bits i by (simp add: Let_def s')
qed

text \<open>
  Claim C2, as amended.  Take an event at any position of what \<^verbatim>\<open>read\<close> delivered, \<open>v\<close>
  being the state when the loop of \<^verbatim>\<open>pidfile_callback\<close> reaches it: an event on a name that
  is not a directory, in a watched directory, whose name ends in \<^verbatim>\<open>.pid\<close> or is \<^verbatim>\<open>pid\<close> and
  whose path is the pidfile of a registered service.  If the mask has one of CREATE,
  ATTRIB, MODIFY, MOVED\_TO and not DELETE, the loop sets the service's condition:
  \<^verbatim>\<open>cond_set\<close> is applied to the state with the updated record, that is, the call is
  recorded and, unless the condition is \<open>ON\<close> already, the condition becomes \<open>ON\<close> and the
  registry-wide step runs.  If the mask has DELETE, the loop drops the event and the state
  stays as it was.  The events after it are then handled from that state.  The clearing
  branch belongs to \<^verbatim>\<open>pidfile_update_conds\<close>: called with a mask that has DELETE and none of
  the four bits, it clears the condition.
\<close>

theorem pidfile_callback_conds:
  assumes v: "v = pidfile_callback X (Some pre) w"
    and nodir: "ev_mask ev AND IN_ISDIR = 0"
    and watch: "iwatch_find_by_wd X (iw_pidfile v) (ev_wd ev) = Some iwp"
    and len: "length (iwp_path iwp @ ''/'' @ ev_name ev) < PATH_MAX"
    and nm: "suffix ''.pid'' (ev_name ev) \<or> ev_name ev = ''pid''"
    and reg: "svc_find_by_pidfile v (iwp_path iwp @ ''/'' @ ev_name ev) = Some i"
    and c: "c = mkcond X (svcs v ! i)"
    and s': "s' = svc_started X (svcs v ! i)"
    and v2: "v2 = v\<lparr>svcs := (svcs v)[i := if svc_is_forking s'
                                   then s'\<lparr>svc_pid := pid_file_read X (svc_pid_file s')\<rparr>
                                   else s']\<rparr>"
  shows "(ev_mask ev AND (IN_CREATE OR IN_ATTRIB OR IN_MODIFY OR IN_MOVED_TO) \<noteq> 0
            \<and> ev_mask ev AND IN_DELETE = 0 \<longrightarrow>
          pidfile_callback X (Some (pre @ [ev])) w = cond_set X c v2
          \<and> cond_set X c v2 =
              (if cond_get X c v = COND_ON then v2\<lparr>calls := calls v @ [CondSet c]\<rparr>
               else service_step_all X UNIV
                      (v2\<lparr>conds := (conds v)(cond_path X c := COND_ON),
                          calls := calls v @ [CondSet c]\<rparr>)))
       \<and> (ev_mask ev AND IN_DELETE \<noteq> 0 \<longrightarrow> pidfile_callback X (Some (pre @ [ev])) w = v)
       \<and> pidfile_callback X (Some (pre @ ev # post)) w
           = pidfile_callback X (Some post) (pidfile_callback X (Some (pre @ [ev])) w)
       \<and> (emask AND (IN_CREATE OR IN_ATTRIB OR IN_MODIFY OR IN_MOVED_TO) = 0
            \<and> emask AND IN_DELETE \<noteq> 0 \<longrightarrow>
          pidfile_update_conds X (iwp_path iwp) (ev_name ev) emask v = cond_clear X c v)"
proof (intro conjI impI)
  have step: "pidfile_callback X (Some (pre @ [ev])) w = pidfile_event X ev v"
    by (simp add: v pidfile_callback_append pidfile_callback_single)
  {
    assume a: "ev_mask ev AND (IN_CREATE OR IN_ATTRIB OR IN_MODIFY OR IN_MOVED_TO) \<noteq> 0
            \<and> ev_mask ev AND IN_DELETE = 0"
    show "pidfile_callback X (Some (pre @ [ev])) w = cond_set X c v2"
      unfolding step c v2
      using pidfile_event_acted [OF nodir _ _ watch len nm reg s'] a by blast
    show "cond_set X c v2 =
              (if cond_get X c v = COND_ON then v2\<lparr>calls := calls v @ [CondSet c]\<rparr>
               else service_step_all X UNIV
                      (v2\<lparr>conds := (conds v)(cond_path X c := COND_ON),
                          calls := calls v @ [CondSet c]\<rparr>))"
      by (simp add: cond_set_def cond_get_def v2)
  }
  {
    assume d: "ev_mask ev AND IN_DELETE \<noteq> 0"
    show "pidfile_callback X (Some (pre @ [ev])) w = v"
      unfolding step using nodir d by (rule pidfile_event_delete)
  }
  show "pidfile_callback X (Some (pre @ ev # post)) w
           = pidfile_callback X (Some post) (pidfile_callback X (Some (pre @ [ev])) w)"
    by (simp add: pidfile_callback_def)
  {
    assume "emask AND (IN_CREATE OR IN_ATTRIB OR IN_MODIFY OR IN_MOVED_TO) = 0
            \<and> emask AND IN_DELETE \<noteq> 0"
    then show "pidfile_update_conds X (iwp_path iwp) (ev_name ev) emask v = cond_clear X c v"
      unfolding pidfile_update_conds_found [OF len nm reg] c by (simp add: Let_def)
  }
qed

lemmas sample_defs = sample_ext_def sample_world_def svc_foo_def svc_bar_def svc_baz_def
  ev_delete_foo_def ev_create_foo_def ev_modify_bar_def

lemmas in_defs = IN_CREATE_def IN_ATTRIB_def IN_MODIFY_def IN_MOVED_TO_def IN_DELETE_def IN_ISDIR_def

text \<open>
  Claim C2 as stated fails for a DELETE event: the pidfile of the registered service
  \<^verbatim>\<open>foo\<close> is deleted in the watched directory \<^verbatim>\<open>/run\<close>, and the condition of \<^verbatim>\<open>foo\<close> is
  still \<open>ON\<close> after the callback, no call having been made.
\<close>

theorem pidfile_delete_event_counterexample:
  "ev_mask ev_delete_foo = IN_DELETE
   \<and> ev_mask ev_delete_foo AND IN_ISDIR = 0
   \<and> iwatch_find_by_wd sample_ext (iw_pidfile sample_world) (ev_wd ev_delete_foo)
       = Some \<lparr>iwp_wd = 1, iwp_path = ''/run''\<rparr>
   \<and> svc_find_by_pidfile sample_world (''/run'' @ ''/'' @ ev_name ev_delete_foo) = Some 0
   \<and> cond_get sample_ext (mkcond sample_ext (svcs sample_world ! 0)) sample_world = COND_ON
   \<and> cond_get sample_ext (mkcond sample_ext (svcs sample_world ! 0))
        (pidfile_callback sample_ext (Some [ev_delete_foo]) sample_world) = COND_ON
   \<and> calls (pidfile_callback sample_ext (Some [ev_delete_foo]) sample_world) = []"
  by (simp add: sample_defs in_defs pidfile_callback_def pidfile_event_def
        svc_find_by_pidfile_def cond_get_def)

lemma sample_watch:
  "iwatch_find_by_wd sample_ext (iw_pidfile sample_world) 1 = Some \<lparr>iwp_wd = 1, iwp_path = ''/run''\<rparr>"
  by (simp add: sample_defs)

lemma sample_callback_delete_foo:
  "pidfile_callback sample_ext (Some [ev_delete_foo]) sample_world = sample_world"
  by (simp add: sample_defs in_defs pidfile_callback_def pidfile_event_def)

text \<open>
  A read of two events: the pidfile of \<^verbatim>\<open>foo\<close> is deleted, then the pidfile of \<^verbatim>\<open>bar\<close> is
  modified.  The first event is dropped; the second, at the second position of the read,
  sets the condition of \<^verbatim>\<open>bar\<close>, which was \<open>OFF\<close>.
\<close>

theorem pidfile_callback_conds_witness:
  "cond_get sample_ext ''pid/bar'' sample_world = COND_OFF
   \<and> pidfile_callback sample_ext (Some ([ev_delete_foo] @ [ev_modify_bar])) sample_world
       = service_step_all sample_ext UNIV
           (sample_world\<lparr>conds := (conds sample_world)(''/run/finit/cond/pid/bar'' := COND_ON),
                         calls := [CondSet ''pid/bar'']\<rparr>)
   \<and> cond_get sample_ext ''pid/bar''
        (pidfile_callback sample_ext (Some ([ev_delete_foo] @ [ev_modify_bar])) sample_world)
       = COND_ON
   \<and> calls (pidfile_callback sample_ext (Some ([ev_delete_foo] @ [ev_modify_bar])) sample_world)
       = [CondSet ''pid/bar'']
   \<and> pidfile_callback sample_ext (Some ([ev_delete_foo] @ [ev_delete_foo])) sample_world
       = sample_world
   \<and> pidfile_update_conds sample_ext ''/run'' ''foo.pid'' IN_DELETE sample_world
       = cond_clear sample_ext ''pid/foo'' sample_world"
proof -
  let ?iwp = "\<lparr>iwp_wd = 1, iwp_path = ''/run''\<rparr>"
  note v = sample_callback_delete_foo [symmetric]
  have b1: "ev_mask ev_modify_bar AND IN_ISDIR = 0"
    by (simp add: sample_defs in_defs)
  have b2: "iwatch_find_by_wd sample_ext (iw_pidfile sample_world) (ev_wd ev_modify_bar) = Some ?iwp"
    by (simp add: sample_defs)
  have b3: "length (iwp_path ?iwp @ ''/'' @ ev_name ev_modify_bar) < PATH_MAX"
    by (simp add: sample_defs PATH_MAX_def)
  have b4: "suffix ''.pid'' (ev_name ev_modify_bar) \<or> ev_name ev_modify_bar = ''pid''"
    by (simp add: sample_defs suffix_to_prefix)
  have b5: "svc_find_by_pidfile sample_world (iwp_path ?iwp @ ''/'' @ ev_name ev_modify_bar) = Some 1"
    by (simp add: sample_defs svc_find_by_pidfile_def)
  have f1: "ev_mask ev_delete_foo AND IN_ISDIR = 0"
    by (simp add: sample_defs in_defs)
  have f2: "iwatch_find_by_wd sample_ext (iw_pidfile sample_world) (ev_wd ev_delete_foo) = Some ?iwp"
    by (simp add: sample_defs)
  have f3: "length (iwp_path ?iwp @ ''/'' @ ev_name ev_delete_foo) < PATH_MAX"
    by (simp add: sample_defs PATH_MAX_def)
  have f4: "suffix ''.pid'' (ev_name ev_delete_foo) \<or> ev_name ev_delete_foo = ''pid''"
    by (simp add: sample_defs suffix_to_prefix)
  have f5: "svc_find_by_pidfile sample_world (iwp_path ?iwp @ ''/'' @ ev_name ev_delete_foo) = Some 0"
    by (simp add: sample_defs svc_find_by_pidfile_def)
  have m1: "ev_mask ev_modify_bar AND (IN_CREATE OR IN_ATTRIB OR IN_MODIFY OR IN_MOVED_TO) \<noteq> 0
            \<and> ev_mask ev_modify_bar AND IN_DELETE = 0"
    by (simp add: sample_defs in_defs)
  have m2: "ev_mask ev_delete_foo AND IN_DELETE \<noteq> 0"
    by (simp add: sample_defs in_defs)
  have m3: "IN_DELETE AND (IN_CREATE OR IN_ATTRIB OR IN_MODIFY OR IN_MOVED_TO) = 0
            \<and> IN_DELETE AND IN_DELETE \<noteq> 0"
    by (simp add: in_defs)
  have nb: "mkcond sample_ext (svcs sample_world ! 1) = ''pid/bar''"
    by (simp add: sample_defs)
  have nf: "mkcond sample_ext (svcs sample_world ! 0) = ''pid/foo''"
    by (simp add: sample_defs)
  have off: "cond_get sample_ext ''pid/bar'' sample_world = COND_OFF"
    by (simp add: sample_defs cond_get_def)
  have nm: "ev_name ev_delete_foo = ''foo.pid''" "iwp_path ?iwp = ''/run''"
    by (simp_all add: sample_defs)
  have bar: "sample_world\<lparr>svcs := (svcs sample_world)
                 [1 := if svc_is_forking (svc_started sample_ext (svcs sample_world ! 1))
                       then (svc_started sample_ext (svcs sample_world ! 1))
                              \<lparr>svc_pid := pid_file_read sample_ext
                                 (svc_pid_file (svc_started sample_ext (svcs sample_world ! 1)))\<rparr>
                       else svc_started sample_ext (svcs sample_world ! 1)]\<rparr> = sample_world"
    by (simp add: sample_defs)
  have em: "calls sample_world = []" "cond_path sample_ext ''pid/bar'' = ''/run/finit/cond/pid/bar''"
    by (simp_all add: sample_defs)
  note t1 = pidfile_callback_conds [OF v b1 b2 b3 b4 b5 nb [symmetric] refl refl,
      of "[]" IN_DELETE, unfolded bar]
  note t2 = pidfile_callback_conds [OF v f1 f2 f3 f4 f5 nf [symmetric] refl refl,
      of "[]" IN_DELETE]
  have r1: "pidfile_callback sample_ext (Some ([ev_delete_foo] @ [ev_modify_bar])) sample_world
       = service_step_all sample_ext UNIV
           (sample_world\<lparr>conds := (conds sample_world)(''/run/finit/cond/pid/bar'' := COND_ON),
                         calls := [CondSet ''pid/bar'']\<rparr>)"
    using t1 m1 off by (simp add: em)
  have r2: "pidfile_callback sample_ext (Some ([ev_delete_foo] @ [ev_delete_foo])) sample_world
       = sample_world"
    using t2 m2 by blast
  have r3: "pidfile_update_conds sample_ext ''/run'' ''foo.pid'' IN_DELETE sample_world
       = cond_clear sample_ext ''pid/foo'' sample_world"
    using t2 m3 unfolding nm by blast
  have r4: "cond_get sample_ext ''pid/bar''
        (service_step_all sample_ext UNIV
           (sample_world\<lparr>conds := (conds sample_world)(''/run/finit/cond/pid/bar'' := COND_ON),
                         calls := [CondSet ''pid/bar'']\<rparr>)) = COND_ON"
    "calls (service_step_all sample_ext UNIV
           (sample_world\<lparr>conds := (conds sample_world)(''/run/finit/cond/pid/bar'' := COND_ON),
                         calls := [CondSet ''pid/bar'']\<rparr>)) = [CondSet ''pid/bar'']"
    by (simp_all add: sample_defs cond_get_def)
  show ?thesis
    unfolding r1 r2 r3 using off r4 by simp
qed

text \<open>
  Claim C3.  Take an event as in C2, at any position of what \<^verbatim>\<open>read\<close> delivered, whose mask
  has one of CREATE, ATTRIB, MODIFY, MOVED\_TO (and not DELETE), for the pidfile of the
  service at position \<open>i\<close>; let \<open>v\<close> be the state when the loop reaches the event and \<open>s'\<close> the
  record after \<^verbatim>\<open>svc_started\<close>.  If \<open>s'\<close> is marked forking, the pid read from its pidfile
  replaces the recorded pid, and \<^verbatim>\<open>cond_set\<close> is applied to the state that already holds
  the new pid: when the condition is not \<open>ON\<close> yet, the registry-wide step that \<^verbatim>\<open>cond_set\<close>
  triggers runs on a registry in which the record has the new pid and on a store in which
  the condition is \<open>ON\<close>.  If \<open>s'\<close> is not marked forking, the record is left as
  \<^verbatim>\<open>svc_started\<close> returned it, so the recorded pid is the one it had.
\<close>

theorem pidfile_callback_forking_pid:
  assumes v: "v = pidfile_callback X (Some pre) w"
    and nodir: "ev_mask ev AND IN_ISDIR = 0"
    and bits: "ev_mask ev AND (IN_CREATE OR IN_ATTRIB OR IN_MODIFY OR IN_MOVED_TO) \<noteq> 0"
    and nodel: "ev_mask ev AND IN_DELETE = 0"
    and watch: "iwatch_find_by_wd X (iw_pidfile v) (ev_wd ev) = Some iwp"
    and len: "length (iwp_path iwp @ ''/'' @ ev_name ev) < PATH_MAX"
    and nm: "suffix ''.pid'' (ev_name ev) \<or> ev_name ev = ''pid''"
    and reg: "svc_find_by_pidfile v (iwp_path iwp @ ''/'' @ ev_name ev) = Some i"
    and c: "c = mkcond X (svcs v ! i)"
    and s': "s' = svc_started X (svcs v ! i)"
    and r: "r = (if svc_is_forking s' then s'\<lparr>svc_pid := pid_file_read X (svc_pid_file s')\<rparr>
                 else s')"
    and w': "w' = pidfile_callback X (Some (pre @ [ev])) w"
  shows "w' = cond_set X c (v\<lparr>svcs := (svcs v)[i := r]\<rparr>)
       \<and> (cond_get X c v \<noteq> COND_ON \<longrightarrow>
            w' = service_step_all X UNIV
                   (v\<lparr>svcs := (svcs v)[i := r],
                      conds := (conds v)(cond_path X c := COND_ON),
                      calls := calls v @ [CondSet c]\<rparr>))
       \<and> (cond_get X c v = COND_ON \<longrightarrow>
            w' = v\<lparr>svcs := (svcs v)[i := r], calls := calls v @ [CondSet c]\<rparr>
            \<and> svc_pid (svcs w' ! i) = svc_pid r)
       \<and> (svc_is_forking s' \<longrightarrow> svc_pid r = pid_file_read X (svc_pid_file s'))
       \<and> (\<not> svc_is_forking s' \<longrightarrow> r = s')
       \<and> (\<not> svc_is_forking s' \<and> svc_pid s' = svc_pid (svcs v ! i) \<longrightarrow>
            svc_pid r = svc_pid (svcs v ! i))
       \<and> svcs (v\<lparr>svcs := (svcs v)[i := r]\<rparr>) ! i = r"
proof -
  have i: "i < length (svcs v)"
    using reg find_first_Some [of _ "svcs v" i] by (simp add: svc_find_by_pidfile_def)
  have step: "w' = pidfile_event X ev v"
    by (simp add: w' v pidfile_callback_append pidfile_callback_single)
  have main: "w' = cond_set X c (v\<lparr>svcs := (svcs v)[i := r]\<rparr>)"
    unfolding step c r by (rule pidfile_event_acted [OF nodir bits nodel watch len nm reg s'])
  show ?thesis
    using i by (auto simp: main cond_set_def cond_get_def r)
qed

text \<open>
  In the sample system the launcher of the forking service \<^verbatim>\<open>foo\<close>, process 100, has
  exited, and the step marks as crashed a running record that still holds pid 100.  With
  the condition of \<^verbatim>\<open>foo\<close> not yet \<open>ON\<close>, the event on \<^verbatim>\<open>/run/foo.pid\<close> (second in the read)
  makes the record of \<^verbatim>\<open>foo\<close> hold pid 4711 when the step runs, so \<^verbatim>\<open>foo\<close> stays running;
  the record of the non-forking \<^verbatim>\<open>bar\<close> keeps pid 200.
\<close>

theorem pidfile_callback_forking_pid_witness:
  "svc_is_forking (svc_started sample_ext (svcs sample_world_off ! 0))
   \<and> svc_pid (svcs sample_world_off ! 0) = 100
   \<and> svcs (pidfile_callback sample_ext (Some ([ev_delete_foo] @ [ev_create_foo])) sample_world_off)
       = [svc_foo\<lparr>svc_pid := 4711\<rparr>, svc_bar, svc_baz]
   \<and> cond_get sample_ext ''pid/foo''
       (pidfile_callback sample_ext (Some ([ev_delete_foo] @ [ev_create_foo])) sample_world_off)
       = COND_ON
   \<and> svcs (service_step_all sample_ext UNIV sample_world_off)
       = [svc_foo\<lparr>svc_state := SVC_CRASHED_STATE\<rparr>, svc_bar, svc_baz]
   \<and> \<not> svc_is_forking (svc_started sample_ext (svcs sample_world ! 1))
   \<and> svc_pid (svcs sample_world ! 1) = 200
   \<and> svc_pid (svcs (pidfile_callback sample_ext (Some ([] @ [ev_modify_bar])) sample_world) ! 1)
       = 200"
proof -
  let ?iwp = "\<lparr>iwp_wd = 1, iwp_path = ''/run''\<rparr>"
  have v0: "sample_world = pidfile_callback sample_ext (Some []) sample_world"
    by (simp add: pidfile_callback_def)
  have v1: "sample_world_off = pidfile_callback sample_ext (Some [ev_delete_foo]) sample_world_off"
    by (simp add: sample_defs sample_world_off_def in_defs pidfile_callback_def pidfile_event_def)
  have b1: "ev_mask ev_modify_bar AND IN_ISDIR = 0"
    by (simp add: sample_defs in_defs)
  have b2: "iwatch_find_by_wd sample_ext (iw_pidfile sample_world) (ev_wd ev_modify_bar) = Some ?iwp"
    by (simp add: sample_defs)
  have b3: "length (iwp_path ?iwp @ ''/'' @ ev_name ev_modify_bar) < PATH_MAX"
    by (simp add: sample_defs PATH_MAX_def)
  have b4: "suffix ''.pid'' (ev_name ev_modify_bar) \<or> ev_name ev_modify_bar = ''pid''"
    by (simp add: sample_defs suffix_to_prefix)
  have b5: "svc_find_by_pidfile sample_world (iwp_path ?iwp @ ''/'' @ ev_name ev_modify_bar) = Some 1"
    by (simp add: sample_defs svc_find_by_pidfile_def)
  have b6: "ev_mask ev_modify_bar AND (IN_CREATE OR IN_ATTRIB OR IN_MODIFY OR IN_MOVED_TO) \<noteq> 0"
    by (simp add: sample_defs in_defs)
  have b7: "ev_mask ev_modify_bar AND IN_DELETE = 0"
    by (simp add: sample_defs in_defs)
  have f1: "ev_mask ev_create_foo AND IN_ISDIR = 0"
    by (simp add: sample_defs in_defs)
  have f2: "iwatch_find_by_wd sample_ext (iw_pidfile sample_world_off) (ev_wd ev_create_foo) = Some ?iwp"
    by (simp add: sample_defs sample_world_off_def)
  have f3: "length (iwp_path ?iwp @ ''/'' @ ev_name ev_create_foo) < PATH_MAX"
    by (simp add: sample_defs PATH_MAX_def)
  have f4: "suffix ''.pid'' (ev_name ev_create_foo) \<or> ev_name ev_create_foo = ''pid''"
    by (simp add: sample_defs suffix_to_prefix)
  have f5: "svc_find_by_pidfile sample_world_off (iwp_path ?iwp @ ''/'' @ ev_name ev_create_foo) = Some 0"
    by (simp add: sample_defs sample_world_off_def svc_find_by_pidfile_def)
  have f6: "ev_mask ev_create_foo AND (IN_CREATE OR IN_ATTRIB OR IN_MODIFY OR IN_MOVED_TO) \<noteq> 0"
    by (simp add: sample_defs in_defs)
  have f7: "ev_mask ev_create_foo AND IN_DELETE = 0"
    by (simp add: sample_defs in_defs)
  have foo: "cond_get sample_ext (mkcond sample_ext (svcs sample_world_off ! 0)) sample_world_off
      \<noteq> COND_ON"
    by (simp add: sample_defs sample_world_off_def cond_get_def)
  have "pidfile_callback sample_ext (Some ([ev_delete_foo] @ [ev_create_foo])) sample_world_off
      = service_step_all sample_ext UNIV
          (sample_world_off\<lparr>svcs := (svcs sample_world_off)
               [0 := if svc_is_forking (svc_started sample_ext (svcs sample_world_off ! 0))
                     then (svc_started sample_ext (svcs sample_world_off ! 0))
                            \<lparr>svc_pid := pid_file_read sample_ext
                               (svc_pid_file (svc_started sample_ext (svcs sample_world_off ! 0)))\<rparr>
                     else svc_started sample_ext (svcs sample_world_off ! 0)],
             conds := (conds sample_world_off)
               (cond_path sample_ext (mkcond sample_ext (svcs sample_world_off ! 0)) := COND_ON),
             calls := calls sample_world_off
               @ [CondSet (mkcond sample_ext (svcs sample_world_off ! 0))]\<rparr>)"
    using pidfile_callback_forking_pid [OF v1 f1 f6 f7 f2 f3 f4 f5 refl refl refl refl] foo
    by blast
  then have r1: "svcs (pidfile_callback sample_ext (Some ([ev_delete_foo] @ [ev_create_foo]))
                   sample_world_off) = [svc_foo\<lparr>svc_pid := 4711\<rparr>, svc_bar, svc_baz]"
    and r2: "cond_get sample_ext ''pid/foo''
       (pidfile_callback sample_ext (Some ([ev_delete_foo] @ [ev_create_foo])) sample_world_off)
       = COND_ON"
    by (simp_all add: sample_defs sample_world_off_def cond_get_def)
  have bar: "cond_get sample_ext (mkcond sample_ext (svcs sample_world ! 1)) sample_world
      \<noteq> COND_ON"
    by (simp add: sample_defs cond_get_def)
  have "pidfile_callback sample_ext (Some ([] @ [ev_modify_bar])) sample_world
      = service_step_all sample_ext UNIV
          (sample_world\<lparr>svcs := (svcs sample_world)
               [1 := if svc_is_forking (svc_started sample_ext (svcs sample_world ! 1))
                     then (svc_started sample_ext (svcs sample_world ! 1))
                            \<lparr>svc_pid := pid_file_read sample_ext
                               (svc_pid_file (svc_started sample_ext (svcs sample_world ! 1)))\<rparr>
                     else svc_started sample_ext (svcs sample_world ! 1)],
             conds := (conds sample_world)
               (cond_path sample_ext (mkcond sample_ext (svcs sample_world ! 1)) := COND_ON),
             calls := calls sample_world
               @ [CondSet (mkcond sample_ext (svcs sample_world ! 1))]\<rparr>)"
    using pidfile_callback_forking_pid [OF v0 b1 b6 b7 b2 b3 b4 b5 refl refl refl refl] bar
    by blast
  then have r3: "svc_pid (svcs (pidfile_callback sample_ext (Some ([] @ [ev_modify_bar]))
                   sample_world) ! 1) = 200"
    by (simp add: sample_defs)
  have r4: "svcs (service_step_all sample_ext UNIV sample_world_off)
       = [svc_foo\<lparr>svc_state := SVC_CRASHED_STATE\<rparr>, svc_bar, svc_baz]"
    by (simp add: sample_defs sample_world_off_def)
  have st: "svc_is_forking (svc_started sample_ext (svcs sample_world_off ! 0))"
    "svc_pid (svcs sample_world_off ! 0) = 100"
    "\<not> svc_is_forking (svc_started sample_ext (svcs sample_world ! 1))"
    "svc_pid (svcs sample_world ! 1) = 200"
    by (simp_all add: sample_defs sample_world_off_def)
  from r1 r2 r3 r4 st show ?thesis by blast
qed

lemma reconf_svc_cases:
  "reconf_svc X s w =
     (if svc_state s = SVC_RUNNING_STATE \<and> \<not> svc_is_changed s \<and> \<not> svc_is_starting s
         \<and> conds w (cond_path X (mkcond X s)) \<noteq> COND_ON
      then cond_set_path (cond_path X (mkcond X s)) COND_ON w else w)"
  by (simp add: reconf_svc_def cond_get_def Let_def)

lemma reconf_fold_svcs: "svcs (fold (reconf_svc X) ss w) = svcs w"
  by (induction ss arbitrary: w) (simp_all add: reconf_svc_cases cond_set_path_def)

lemma reconf_fold_iw: "iw_pidfile (fold (reconf_svc X) ss w) = iw_pidfile w"
  by (induction ss arbitrary: w) (simp_all add: reconf_svc_cases cond_set_path_def)

lemma reconf_fold_conds:
  "conds (fold (reconf_svc X) ss w) p =
     (if \<exists>s\<in>set ss. svc_state s = SVC_RUNNING_STATE \<and> \<not> svc_is_changed s
            \<and> \<not> svc_is_starting s \<and> cond_path X (mkcond X s) = p
      then COND_ON else conds w p)"
proof (induction ss arbitrary: w)
  case Nil
  then show ?case by simp
next
  case (Cons s ss)
  show ?case
    unfolding fold_Cons comp_apply Cons.IH
    by (auto simp: reconf_svc_cases cond_set_path_def)
qed

lemma reconf_fold_calls:
  "\<exists>ps. calls (fold (reconf_svc X) ss w) = calls w @ map (\<lambda>p. CondSetPath p COND_ON) ps
      \<and> distinct ps
      \<and> set ps = {p. (\<exists>s\<in>set ss. svc_state s = SVC_RUNNING_STATE \<and> \<not> svc_is_changed s
                          \<and> \<not> svc_is_starting s \<and> cond_path X (mkcond X s) = p)
                     \<and> conds w p \<noteq> COND_ON}"
proof (induction ss arbitrary: w)
  case Nil
  then show ?case by simp
next
  case (Cons s ss)
  let ?el = "\<lambda>s. svc_state s = SVC_RUNNING_STATE \<and> \<not> svc_is_changed s \<and> \<not> svc_is_starting s"
  let ?p0 = "cond_path X (mkcond X s)"
  show ?case
  proof (cases "?el s \<and> conds w ?p0 \<noteq> COND_ON")
    case True
    let ?w1 = "cond_set_path ?p0 COND_ON w"
    have step: "reconf_svc X s w = ?w1" using True by (simp add: reconf_svc_cases)
    from Cons.IH [of ?w1] obtain ps where
      ps: "calls (fold (reconf_svc X) ss ?w1) = calls ?w1 @ map (\<lambda>p. CondSetPath p COND_ON) ps"
        "distinct ps"
        "set ps = {p. (\<exists>s\<in>set ss. ?el s \<and> cond_path X (mkcond X s) = p) \<and> conds ?w1 p \<noteq> COND_ON}"
      by blast
    have c1: "conds ?w1 = (conds w)(?p0 := COND_ON)" "calls ?w1 = calls w @ [CondSetPath ?p0 COND_ON]"
      by (simp_all add: cond_set_path_def)
    have "?p0 \<notin> set ps" using ps(3) c1 by simp
    moreover have "set (?p0 # ps) = {p. (\<exists>s\<in>set (s # ss). ?el s \<and> cond_path X (mkcond X s) = p) \<and> conds w p \<noteq> COND_ON}"
      using ps(3) c1 True by auto
    moreover have "calls (fold (reconf_svc X) (s # ss) w) = calls w @ map (\<lambda>p. CondSetPath p COND_ON) (?p0 # ps)"
      using ps(1) c1 step by simp
    ultimately show ?thesis using ps(2) by (intro exI [of _ "?p0 # ps"]) simp
  next
    case False
    then have step: "reconf_svc X s w = w" by (auto simp: reconf_svc_cases)
    from Cons.IH [of w] obtain ps where
      ps: "calls (fold (reconf_svc X) ss w) = calls w @ map (\<lambda>p. CondSetPath p COND_ON) ps"
        "distinct ps"
        "set ps = {p. (\<exists>s\<in>set ss. ?el s \<and> cond_path X (mkcond X s) = p) \<and> conds w p \<noteq> COND_ON}"
      by blast
    have "set ps = {p. (\<exists>s\<in>set (s # ss). ?el s \<and> cond_path X (mkcond X s) = p) \<and> conds w p \<noteq> COND_ON}"
      using ps(3) False by auto
    then show ?thesis using ps(1,2) step by (intro exI [of _ ps]) simp
  qed
qed

text \<open>
  Claim C4.  \<^verbatim>\<open>pidfile_reconf\<close> runs the loop over the registry and then
  \<^verbatim>\<open>service_step_all\<close> for services and run/tasks.  When the loop reaches a service \<open>s\<close>, it
  writes \<open>ON\<close> to the file of the service's own condition if and only if \<open>s\<close> is in the
  running state, is not changed, is not starting and its condition is not \<open>ON\<close> at that moment;
  otherwise it goes on with the state as it is.  Over the whole loop: a condition file is
  \<open>ON\<close> afterwards if it belongs to a running, unchanged, non-starting service, and keeps its
  state otherwise; the calls made are one \<^verbatim>\<open>cond_set_path\<close> to \<open>ON\<close> for each file that
  belongs to such a service and was not \<open>ON\<close> before, and nothing else; the registry is
  left as it was.
\<close>

theorem pidfile_reconf_reasserts:
  "pidfile_reconf X w
     = service_step_all X {SVC_TYPE_SERVICE, SVC_TYPE_RUNTASK} (pidfile_reconf_loop X (svcs w) w)
   \<and> (svcs w = pre @ s # post \<longrightarrow>
        pidfile_reconf_loop X (pre @ [s]) w =
          (if svc_state s = SVC_RUNNING_STATE \<and> \<not> svc_is_changed s \<and> \<not> svc_is_starting s
              \<and> cond_get X (mkcond X s) (pidfile_reconf_loop X pre w) \<noteq> COND_ON
           then cond_set_path (cond_path X (mkcond X s)) COND_ON (pidfile_reconf_loop X pre w)
           else pidfile_reconf_loop X pre w))
   \<and> conds (pidfile_reconf_loop X (svcs w) w) p =
        (if \<exists>s\<in>set (svcs w). svc_state s = SVC_RUNNING_STATE \<and> \<not> svc_is_changed s
               \<and> \<not> svc_is_starting s \<and> cond_path X (mkcond X s) = p
         then COND_ON else conds w p)
   \<and> (\<exists>ps. calls (pidfile_reconf_loop X (svcs w) w)
               = calls w @ map (\<lambda>p. CondSetPath p COND_ON) ps
           \<and> distinct ps
           \<and> set ps = {p. (\<exists>s\<in>set (svcs w). svc_state s = SVC_RUNNING_STATE
                               \<and> \<not> svc_is_changed s \<and> \<not> svc_is_starting s
                               \<and> cond_path X (mkcond X s) = p)
                          \<and> conds w p \<noteq> COND_ON})
   \<and> svcs (pidfile_reconf_loop X (svcs w) w) = svcs w"
proof (intro conjI)
  show "pidfile_reconf X w
     = service_step_all X {SVC_TYPE_SERVICE, SVC_TYPE_RUNTASK} (pidfile_reconf_loop X (svcs w) w)"
    by (simp add: pidfile_reconf_def)
  show "svcs w = pre @ s # post \<longrightarrow>
        pidfile_reconf_loop X (pre @ [s]) w =
          (if svc_state s = SVC_RUNNING_STATE \<and> \<not> svc_is_changed s \<and> \<not> svc_is_starting s
              \<and> cond_get X (mkcond X s) (pidfile_reconf_loop X pre w) \<noteq> COND_ON
           then cond_set_path (cond_path X (mkcond X s)) COND_ON (pidfile_reconf_loop X pre w)
           else pidfile_reconf_loop X pre w)"
    by (simp add: pidfile_reconf_loop_def reconf_svc_cases cond_get_def)
  show "conds (pidfile_reconf_loop X (svcs w) w) p =
        (if \<exists>s\<in>set (svcs w). svc_state s = SVC_RUNNING_STATE \<and> \<not> svc_is_changed s
               \<and> \<not> svc_is_starting s \<and> cond_path X (mkcond X s) = p
         then COND_ON else conds w p)"
    unfolding pidfile_reconf_loop_def by (rule reconf_fold_conds)
  show "\<exists>ps. calls (pidfile_reconf_loop X (svcs w) w)
               = calls w @ map (\<lambda>p. CondSetPath p COND_ON) ps
           \<and> distinct ps
           \<and> set ps = {p. (\<exists>s\<in>set (svcs w). svc_state s = SVC_RUNNING_STATE
                               \<and> \<not> svc_is_changed s \<and> \<not> svc_is_starting s
                               \<and> cond_path X (mkcond X s) = p)
                          \<and> conds w p \<noteq> COND_ON}"
    unfolding pidfile_reconf_loop_def by (rule reconf_fold_calls)
  show "svcs (pidfile_reconf_loop X (svcs w) w) = svcs w"
    by (simp add: pidfile_reconf_loop_def reconf_fold_svcs)
qed

theorem pidfile_reconf_reasserts_witness:
  "svcs sample_world = [svc_foo] @ svc_bar # [svc_baz]
   \<and> pidfile_reconf_loop sample_ext [svc_foo] sample_world = sample_world
   \<and> pidfile_reconf_loop sample_ext ([svc_foo] @ [svc_bar]) sample_world
       = cond_set_path ''/run/finit/cond/pid/bar'' COND_ON sample_world
   \<and> conds (pidfile_reconf_loop sample_ext (svcs sample_world) sample_world)
        ''/run/finit/cond/pid/bar'' = COND_ON
   \<and> conds (pidfile_reconf_loop sample_ext (svcs sample_world) sample_world)
        ''/run/finit/cond/pid/baz'' = COND_OFF"
proof -
  have sp: "svcs sample_world = [svc_foo] @ svc_bar # [svc_baz]"
    by (simp add: sample_world_def)
  have pre: "pidfile_reconf_loop sample_ext [svc_foo] sample_world = sample_world"
    by (simp add: pidfile_reconf_loop_def reconf_svc_def cond_get_def sample_defs)
  have bar: "svc_state svc_bar = SVC_RUNNING_STATE \<and> \<not> svc_is_changed svc_bar
      \<and> \<not> svc_is_starting svc_bar
      \<and> cond_get sample_ext (mkcond sample_ext svc_bar) sample_world \<noteq> COND_ON"
    by (simp add: cond_get_def sample_defs)
  have own: "cond_path sample_ext (mkcond sample_ext svc_bar) = ''/run/finit/cond/pid/bar''"
    by (simp add: sample_defs)
  have ex1: "\<exists>s\<in>set (svcs sample_world). svc_state s = SVC_RUNNING_STATE \<and> \<not> svc_is_changed s
               \<and> \<not> svc_is_starting s
               \<and> cond_path sample_ext (mkcond sample_ext s) = ''/run/finit/cond/pid/bar''"
    by (simp add: sample_defs)
  have ex2: "\<not> (\<exists>s\<in>set (svcs sample_world). svc_state s = SVC_RUNNING_STATE \<and> \<not> svc_is_changed s
               \<and> \<not> svc_is_starting s
               \<and> cond_path sample_ext (mkcond sample_ext s) = ''/run/finit/cond/pid/baz'')"
    by (simp add: sample_defs)
  have off: "conds sample_world ''/run/finit/cond/pid/baz'' = COND_OFF"
    by (simp add: sample_defs)
  note t1 = pidfile_reconf_reasserts [of sample_ext sample_world "[svc_foo]" svc_bar "[svc_baz]"
      "''/run/finit/cond/pid/bar''"]
  note t2 = pidfile_reconf_reasserts [of sample_ext sample_world "[svc_foo]" svc_bar "[svc_baz]"
      "''/run/finit/cond/pid/baz''"]
  have a: "pidfile_reconf_loop sample_ext ([svc_foo] @ [svc_bar]) sample_world
       = cond_set_path ''/run/finit/cond/pid/bar'' COND_ON sample_world"
    using t1 sp bar unfolding pre own by presburger
  have b: "conds (pidfile_reconf_loop sample_ext (svcs sample_world) sample_world)
        ''/run/finit/cond/pid/bar'' = COND_ON"
    using t1 ex1 by presburger
  have c: "conds (pidfile_reconf_loop sample_ext (svcs sample_world) sample_world)
        ''/run/finit/cond/pid/baz'' = COND_OFF"
    using t2 ex2 off by presburger
  from sp pre a b c show ?thesis by blast
qed

subsection \<open>The plugin dispatcher\<close>

lemma find_first_None_iff: "find_first P xs = None \<longleftrightarrow> (\<forall>x\<in>set xs. \<not> P x)"
  by (induction xs) auto

lemma run_hook_cb_objs: "objs (run_hook_cb no arg p w) = objs w"
  by (simp add: run_hook_cb_def split: option.splits)

lemma run_hook_cb_plugins: "plugins (run_hook_cb no arg p w) = plugins w"
  by (simp add: run_hook_cb_def split: option.splits)

lemma hook_arg_of_objs: "objs w' = objs w \<Longrightarrow> hook_arg_of w' no arg = hook_arg_of w no arg"
  by (rule ext) (simp add: hook_arg_of_def)

lemma run_callbacks_objs:
  assumes "objs w' = objs w"
  shows "run_callbacks w' no arg = run_callbacks w no arg"
proof -
  have h: "hook_arg_of w' no arg = hook_arg_of w no arg" by (rule hook_arg_of_objs [OF assms])
  show ?thesis by (intro ext) (simp only: run_callbacks_def h assms)
qed

lemma run_hook_cb_fold_objs: "objs (fold (run_hook_cb no arg) ps w) = objs w"
  by (induction ps arbitrary: w) (simp_all add: run_hook_cb_objs)

lemma run_hook_cb_fold_plugins: "plugins (fold (run_hook_cb no arg) ps w) = plugins w"
  by (induction ps arbitrary: w) (simp_all add: run_hook_cb_plugins)

lemma run_hook_cb_fold_calls:
  "pcalls (fold (run_hook_cb no arg) ps w) =
     pcalls w @ map (\<lambda>p. HookCb p no (hook_arg_of w no arg p))
                  (filter (\<lambda>p. hook_cb (plugin_hook (objs w p) no) \<noteq> None) ps)"
proof (induction ps arbitrary: w)
  case Nil
  then show ?case by simp
next
  case (Cons p ps)
  show ?case
    unfolding fold_Cons comp_apply Cons.IH run_hook_cb_objs
      hook_arg_of_objs [OF run_hook_cb_objs]
    by (auto simp: run_hook_cb_def split: option.splits)
qed

lemma run_hook_cb_fold_sys:
  "sys (fold (run_hook_cb no arg) ps w) = run_callbacks w no arg ps (sys w)"
proof (induction ps arbitrary: w)
  case Nil
  then show ?case by (simp add: run_callbacks_def)
next
  case (Cons p ps)
  have "sys (fold (run_hook_cb no arg) (p # ps) w)
      = run_callbacks w no arg ps (sys (run_hook_cb no arg p w))"
    unfolding fold_Cons comp_apply Cons.IH run_callbacks_objs [OF run_hook_cb_objs] ..
  also have "\<dots> = run_callbacks w no arg (p # ps) (sys w)"
    by (simp add: run_callbacks_def run_hook_cb_def split: option.splits)
  finally show ?case .
qed

lemma plugin_run_hook_calls:
  "pcalls (plugin_run_hook E no arg w) =
     pcalls w
     @ map (\<lambda>p. HookCb p no (hook_arg_of w no arg p))
         (filter (\<lambda>p. hook_cb (plugin_hook (objs w p) no) \<noteq> None) (plugins w))
     @ (if HOOK_MOUNT_ERROR E \<le> no then [CondSetOneshot (hook_cond E no)] else [])
     @ [ServiceStepAll {SVC_TYPE_RUNTASK}]"
  by (simp add: plugin_run_hook_def Let_def run_hook_cb_fold_calls)

lemma plugin_run_hook_sys:
  "sys (plugin_run_hook E no arg w) =
     step_all E {SVC_TYPE_RUNTASK}
       ((if HOOK_MOUNT_ERROR E \<le> no then cond_set_oneshot E (hook_cond E no) else id)
          (run_callbacks w no arg (plugins w) (sys w)))"
  by (simp add: plugin_run_hook_def Let_def run_hook_cb_fold_sys)

lemma plugin_run_hook_rest:
  "objs (plugin_run_hook E no arg w) = objs w"
  "plugins (plugin_run_hook E no arg w) = plugins w"
  by (simp_all add: plugin_run_hook_def Let_def run_hook_cb_fold_objs run_hook_cb_fold_plugins)

text \<open>
  Claim C5, as amended.  \<^verbatim>\<open>plugin_run_hook\<close> first calls the callback of each plugin that
  has one at the hook point, then calls \<^verbatim>\<open>cond_set_oneshot\<close> on the hook's condition if and
  only if the hook point is at or after \<^verbatim>\<open>HOOK_MOUNT_ERROR\<close>, then \<^verbatim>\<open>service_step_all\<close> for
  run/tasks: this is what it does in order, and the system afterwards is the one the
  callbacks leave, with the condition set on it if and only if the hook point is at or
  after \<^verbatim>\<open>HOOK_MOUNT_ERROR\<close>, stepped.  For an earlier hook point no condition is set.
\<close>

theorem plugin_run_hook_oneshot:
  "pcalls (plugin_run_hook E no arg w) =
     pcalls w
     @ map (\<lambda>p. HookCb p no (hook_arg_of w no arg p))
         (filter (\<lambda>p. hook_cb (plugin_hook (objs w p) no) \<noteq> None) (plugins w))
     @ (if HOOK_MOUNT_ERROR E \<le> no then [CondSetOneshot (hook_cond E no)] else [])
     @ [ServiceStepAll {SVC_TYPE_RUNTASK}]
   \<and> sys (plugin_run_hook E no arg w) =
       step_all E {SVC_TYPE_RUNTASK}
         ((if HOOK_MOUNT_ERROR E \<le> no then cond_set_oneshot E (hook_cond E no) else id)
            (run_callbacks w no arg (plugins w) (sys w)))
   \<and> (CondSetOneshot (hook_cond E no)
          \<in> set (drop (length (pcalls w)) (pcalls (plugin_run_hook E no arg w)))
        \<longleftrightarrow> HOOK_MOUNT_ERROR E \<le> no)
   \<and> (\<forall>c. CondSetOneshot c
              \<in> set (drop (length (pcalls w)) (pcalls (plugin_run_hook E no arg w)))
            \<longrightarrow> c = hook_cond E no \<and> HOOK_MOUNT_ERROR E \<le> no)"
proof (intro conjI)
  show "pcalls (plugin_run_hook E no arg w) =
     pcalls w
     @ map (\<lambda>p. HookCb p no (hook_arg_of w no arg p))
         (filter (\<lambda>p. hook_cb (plugin_hook (objs w p) no) \<noteq> None) (plugins w))
     @ (if HOOK_MOUNT_ERROR E \<le> no then [CondSetOneshot (hook_cond E no)] else [])
     @ [ServiceStepAll {SVC_TYPE_RUNTASK}]"
    by (rule plugin_run_hook_calls)
  show "sys (plugin_run_hook E no arg w) =
       step_all E {SVC_TYPE_RUNTASK}
         ((if HOOK_MOUNT_ERROR E \<le> no then cond_set_oneshot E (hook_cond E no) else id)
            (run_callbacks w no arg (plugins w) (sys w)))"
    by (rule plugin_run_hook_sys)
  show "CondSetOneshot (hook_cond E no)
          \<in> set (drop (length (pcalls w)) (pcalls (plugin_run_hook E no arg w)))
        \<longleftrightarrow> HOOK_MOUNT_ERROR E \<le> no"
    by (auto simp: plugin_run_hook_calls)
  show "\<forall>c. CondSetOneshot c
              \<in> set (drop (length (pcalls w)) (pcalls (plugin_run_hook E no arg w)))
            \<longrightarrow> c = hook_cond E no \<and> HOOK_MOUNT_ERROR E \<le> no"
    by (auto simp: plugin_run_hook_calls split: if_splits)
qed

lemmas plugin_sample_defs = sample_plugin_env_def no_hook_def plugin_alpha_def plugin_bravo_def
  plugin_charlie_def plugin_delta_def sample_objs_def empty_pstate_def static_pstate_def
  dynamic_pstate_def sample_dynamic_env_def alpha_pstate_def delta_pstate_def

lemmas plugin_eval = plugin_register_def register_body_def plugin_find_def SEARCH_PLUGIN_def
  trim_ext_def cut_at_def default_name_def plugin_register_all_def check_plugin_depends_def
  load_one_def dlopen_def noext_def fisslashdir_def

lemma sample_static_registration:
  "plugin_register_all 0 sample_plugin_env [10, 20, 30] empty_pstate = Inr static_pstate"
  by (simp add: plugin_sample_defs plugin_eval)

text \<open>
  Whatever the values of the two enumerators, as long as they differ there is a hook point
  at which the condition is set without the point being at or after \<^verbatim>\<open>HOOK_BASEFS_UP\<close>,
  or the other way round.
\<close>

lemma threshold_not_basefs_up:
  assumes "HOOK_MOUNT_ERROR E \<noteq> HOOK_BASEFS_UP E"
  shows "\<exists>no. (CondSetOneshot (hook_cond E no) \<in> set (pcalls (plugin_run_hook E no arg (w\<lparr>pcalls := []\<rparr>))))
              \<noteq> (HOOK_BASEFS_UP E \<le> no)"
proof -
  let ?no = "min (HOOK_MOUNT_ERROR E) (HOOK_BASEFS_UP E)"
  have "(CondSetOneshot (hook_cond E ?no) \<in> set (pcalls (plugin_run_hook E ?no arg (w\<lparr>pcalls := []\<rparr>))))
      = (HOOK_MOUNT_ERROR E \<le> ?no)"
    by (auto simp: plugin_run_hook_calls)
  moreover have "(HOOK_MOUNT_ERROR E \<le> ?no) \<noteq> (HOOK_BASEFS_UP E \<le> ?no)"
    using assms by auto
  ultimately show ?thesis by blast
qed

text \<open>
  Claim C5 as stated fails wherever the two enumerators differ.  With
  \<^verbatim>\<open>HOOK_MOUNT_ERROR = 2\<close> and \<^verbatim>\<open>HOOK_BASEFS_UP = 4\<close>, running the hooks of point 2, which
  is before \<^verbatim>\<open>HOOK_BASEFS_UP\<close>, sets the condition of that hook, after the callback of the
  second plugin.
\<close>

theorem hook_oneshot_basefs_up_counterexample:
  "HOOK_MOUNT_ERROR sample_plugin_env = 2
   \<and> HOOK_BASEFS_UP sample_plugin_env = 4
   \<and> \<not> HOOK_BASEFS_UP sample_plugin_env \<le> 2
   \<and> plugin_register_all 0 sample_plugin_env [10, 20, 30] empty_pstate = Inr static_pstate
   \<and> pcalls (plugin_run_hook sample_plugin_env 2 0 static_pstate)
       = [Registered 10, Registered 20, Registered 30,
          HookCb 20 2 8, CondSetOneshot ''hook/mount/error'', ServiceStepAll {SVC_TYPE_RUNTASK}]
   \<and> sys (plugin_run_hook sample_plugin_env 2 0 static_pstate)
       = [(''bravo'', 8), (''hook/mount/error'', 0)]"
  by (simp add: sample_static_registration)
     (simp add: plugin_sample_defs plugin_run_hook_def run_hook_cb_def hook_arg_of_def Let_def)

text \<open>
  The hook at point 4 sets its condition after the two callbacks; the hook at point 1 sets
  none.
\<close>

theorem plugin_run_hook_oneshot_witness:
  "pcalls (plugin_run_hook sample_plugin_env 4 5 static_pstate)
     = [Registered 10, Registered 20, Registered 30,
        HookCb 10 4 5, HookCb 30 4 5, CondSetOneshot ''hook/mount/all'',
        ServiceStepAll {SVC_TYPE_RUNTASK}]
   \<and> sys (plugin_run_hook sample_plugin_env 4 5 static_pstate)
     = [(''alpha'', 5), (''charlie'', 5), (''hook/mount/all'', 0)]
   \<and> pcalls (plugin_run_hook sample_plugin_env 1 5 static_pstate)
     = [Registered 10, Registered 20, Registered 30, ServiceStepAll {SVC_TYPE_RUNTASK}]
   \<and> sys (plugin_run_hook sample_plugin_env 1 5 static_pstate) = []
   \<and> CondSetOneshot ''hook/mount/all''
       \<notin> set (drop (length (pcalls static_pstate))
                 (pcalls (plugin_run_hook sample_plugin_env 1 5 static_pstate)))"
proof -
  let ?E = sample_plugin_env and ?w = static_pstate
  have f4: "filter (\<lambda>p. hook_cb (plugin_hook (objs ?w p) 4) \<noteq> None) (plugins ?w) = [10, 30]"
    by (simp add: plugin_sample_defs)
  have f1: "filter (\<lambda>p. hook_cb (plugin_hook (objs ?w p) 1) \<noteq> None) (plugins ?w) = []"
    by (simp add: plugin_sample_defs)
  have e: "pcalls ?w = [Registered 10, Registered 20, Registered 30]"
    "HOOK_MOUNT_ERROR ?E \<le> 4" "\<not> HOOK_MOUNT_ERROR ?E \<le> 1"
    "hook_cond ?E 4 = ''hook/mount/all''" "hook_arg_of ?w 4 5 = (\<lambda>p. 5)"
    by (simp_all add: plugin_sample_defs hook_arg_of_def fun_eq_iff)
  have s4: "step_all ?E {SVC_TYPE_RUNTASK}
         (cond_set_oneshot ?E ''hook/mount/all'' (run_callbacks ?w 4 5 (plugins ?w) (sys ?w)))
       = [(''alpha'', 5), (''charlie'', 5), (''hook/mount/all'', 0)]"
    by (simp add: plugin_sample_defs run_callbacks_def hook_arg_of_def)
  have s1: "step_all ?E {SVC_TYPE_RUNTASK} (run_callbacks ?w 1 5 (plugins ?w) (sys ?w)) = []"
    by (simp add: plugin_sample_defs run_callbacks_def hook_arg_of_def)
  note t4 = plugin_run_hook_oneshot [of ?E 4 5 ?w]
  note t1 = plugin_run_hook_oneshot [of ?E 1 5 ?w]
  note t4a = t4 [THEN conjunct1, unfolded f4]
  note t4b = t4 [THEN conjunct2, THEN conjunct1]
  note t1a = t1 [THEN conjunct1, unfolded f1]
  note t1b = t1 [THEN conjunct2, THEN conjunct1]
  note t1d = t1 [THEN conjunct2, THEN conjunct2, THEN conjunct2]
  have a: "pcalls (plugin_run_hook ?E 4 5 ?w)
     = [Registered 10, Registered 20, Registered 30,
        HookCb 10 4 5, HookCb 30 4 5, CondSetOneshot ''hook/mount/all'',
        ServiceStepAll {SVC_TYPE_RUNTASK}]"
    using t4a e by simp
  have b: "sys (plugin_run_hook ?E 4 5 ?w)
     = [(''alpha'', 5), (''charlie'', 5), (''hook/mount/all'', 0)]"
    using t4b e s4 by simp
  have c: "pcalls (plugin_run_hook ?E 1 5 ?w)
     = [Registered 10, Registered 20, Registered 30, ServiceStepAll {SVC_TYPE_RUNTASK}]"
    using t1a e by simp
  have d: "sys (plugin_run_hook ?E 1 5 ?w) = []"
    using t1b e s1 by simp
  have "CondSetOneshot ''hook/mount/all''
       \<in> set (drop (length (pcalls ?w)) (pcalls (plugin_run_hook ?E 1 5 ?w)))
      \<longrightarrow> HOOK_MOUNT_ERROR ?E \<le> 1"
    using t1d by blast
  with e have f: "CondSetOneshot ''hook/mount/all''
       \<notin> set (drop (length (pcalls ?w)) (pcalls (plugin_run_hook ?E 1 5 ?w)))"
    by blast
  from a b c d f show ?thesis by blast
qed

lemma appends_iff:
  "appends w w' \<longleftrightarrow> (\<exists>tr. pcalls w' = pcalls w @ tr \<and> plugins w' = plugins w @ registered tr)"
proof
  assume "appends w w'"
  then have "pcalls w' = pcalls w @ drop (length (pcalls w)) (pcalls w')
      \<and> plugins w' = plugins w @ registered (drop (length (pcalls w)) (pcalls w'))"
    unfolding appends_def by (metis append_take_drop_id)
  then show "\<exists>tr. pcalls w' = pcalls w @ tr \<and> plugins w' = plugins w @ registered tr" by blast
next
  assume "\<exists>tr. pcalls w' = pcalls w @ tr \<and> plugins w' = plugins w @ registered tr"
  then show "appends w w'" by (auto simp: appends_def)
qed

lemma registered_append: "registered (xs @ ys) = registered xs @ registered ys"
  by (induction xs rule: registered.induct) simp_all

lemma appends_refl: "appends w w"
  by (simp add: appends_iff)

lemma appends_trans: "appends w w1 \<Longrightarrow> appends w1 w2 \<Longrightarrow> appends w w2"
  unfolding appends_iff
proof -
  assume "\<exists>tr. pcalls w1 = pcalls w @ tr \<and> plugins w1 = plugins w @ registered tr"
    and "\<exists>tr. pcalls w2 = pcalls w1 @ tr \<and> plugins w2 = plugins w1 @ registered tr"
  then obtain t1 t2 where "pcalls w1 = pcalls w @ t1" "plugins w1 = plugins w @ registered t1"
    "pcalls w2 = pcalls w1 @ t2" "plugins w2 = plugins w1 @ registered t2" by blast
  then have "pcalls w2 = pcalls w @ (t1 @ t2) \<and> plugins w2 = plugins w @ registered (t1 @ t2)"
    by (simp add: registered_append)
  then show "\<exists>tr. pcalls w2 = pcalls w @ tr \<and> plugins w2 = plugins w @ registered tr" by blast
qed

lemma appends_same:
  "pcalls w' = pcalls w \<Longrightarrow> plugins w' = plugins w \<Longrightarrow> appends w w'"
  by (simp add: appends_iff)

lemma fold_res_appends:
  assumes "\<And>x s s'. f x s = Inr s' \<Longrightarrow> appends s s'"
  shows "fold_res f xs s = Inr s' \<Longrightarrow> appends s s'"
proof (induction xs arbitrary: s)
  case Nil
  then show ?case by (simp add: appends_refl)
next
  case (Cons x xs)
  from Cons.prems obtain s1 where s1: "f x s = Inr s1" "fold_res f xs s1 = Inr s'"
    by (auto split: sum.splits)
  from assms [OF s1(1)] Cons.IH [OF s1(2)] show ?case by (rule appends_trans)
qed

lemma dlopen_appends:
  assumes ctor: "\<And>p s s'. ctor p s = Inr s' \<Longrightarrow> appends s s'"
    and r: "dlopen ctor E f w = Inr (h, w')"
  shows "appends w w'"
proof (cases "dl_ctors E f")
  case None
  with r show ?thesis by (simp add: dlopen_def appends_refl)
next
  case (Some cs)
  show ?thesis
  proof (cases "f \<in> set (loaded w)")
    case True
    with r Some show ?thesis by (simp add: dlopen_def appends_refl)
  next
    case False
    with r Some have "fold_res ctor cs (w\<lparr>loaded := f # loaded w\<rparr>) = Inr w'"
      by (auto simp: dlopen_def split: sum.splits)
    from fold_res_appends [of ctor, OF ctor this]
    have "appends (w\<lparr>loaded := f # loaded w\<rparr>) w'" .
    moreover have "appends w (w\<lparr>loaded := f # loaded w\<rparr>)" by (simp add: appends_same)
    ultimately show ?thesis using appends_trans by blast
  qed
qed

lemma load_one_appends:
  assumes ctor: "\<And>p s s'. ctor p s = Inr s' \<Longrightarrow> appends s s'"
    and r: "load_one ctor E path name w = Inr (rc, w')"
  shows "appends w w'"
proof (cases "\<exists>pa n. path = Some pa \<and> name = Some n \<and> fisdir E pa")
  case False
  with r have "w' = w" by (auto simp: load_one_def split: option.splits if_splits)
  then show ?thesis by (simp add: appends_refl)
next
  case True
  then obtain pa n where pn: "path = Some pa" "name = Some n" "fisdir E pa" by blast
  let ?so = "take (CMD_SIZE E - 1) (pa @ ''/'' @ n @ (if noext n then ''.so'' else []))"
  let ?w0 = "w\<lparr>pcalls := pcalls w @ [Dlopen ?so]\<rparr>"
  from r pn obtain h w1 where d: "dlopen ctor E ?so ?w0 = Inr (h, w1)"
    by (auto simp: load_one_def Let_def split: sum.splits)
  have a0: "appends w ?w0" by (auto simp: appends_iff intro: exI [of _ "[Dlopen ?so]"])
  have a1: "appends ?w0 w1" by (rule dlopen_appends [OF ctor d])
  have a2: "appends w1 w'"
    using r pn d
    by (auto simp: load_one_def Let_def appends_iff split: option.splits if_splits
          intro: exI [of _ "[]"] exI [of _ "[Dlclose x]" for x])
  from a0 a1 a2 show ?thesis using appends_trans by blast
qed

lemma check_plugin_depends_appends:
  assumes ctor: "\<And>p s s'. ctor p s = Inr s' \<Longrightarrow> appends s s'"
    and r: "check_plugin_depends ctor E p w = Inr w'"
  shows "appends w w'"
proof -
  let ?f = "\<lambda>dep w. case plugin_find E (Some dep) w of
                   Inl e \<Rightarrow> Inl e
                 | Inr (Some p) \<Rightarrow> Inr w
                 | Inr None \<Rightarrow>
                     (case load_one ctor E (plugpath w) (Some dep) w of
                        Inl e \<Rightarrow> Inl e
                      | Inr (rc, w1) \<Rightarrow> Inr w1)"
  have step: "\<And>x s s'. ?f x s = Inr s' \<Longrightarrow> appends s s'"
    by (auto split: sum.splits option.splits intro: appends_refl load_one_appends [OF ctor])
  from r have "fold_res ?f (take (PLUGIN_DEP_MAX E) (plugin_depends (objs w p))) w = Inr w'"
    by (simp add: check_plugin_depends_def)
  from fold_res_appends [of ?f, OF step this] show ?thesis .
qed

lemma register_body_appends:
  assumes ctor: "\<And>p s s'. ctor p s = Inr s' \<Longrightarrow> appends s s'"
    and r: "register_body ctor E plugin w = Inr (rc, w')"
  shows "appends w w'"
proof (cases plugin)
  case None
  with r show ?thesis by (simp add: register_body_def appends_refl)
next
  case (Some p)
  from r Some obtain n where n: "default_name E p (plugin_name (objs w p)) = Str n"
    by (auto simp: register_body_def split: cstring.splits)
  let ?w1 = "w\<lparr>objs := (objs w)(p := (objs w p)\<lparr>plugin_name := Str (trim_ext n)\<rparr>)\<rparr>"
  have a1: "appends w ?w1" by (simp add: appends_same)
  from r Some n obtain fr where fr: "plugin_find E (Some (trim_ext n)) ?w1 = Inr fr"
    by (auto simp: register_body_def Let_def split: sum.splits)
  show ?thesis
  proof (cases fr)
    case (Some q)
    with r \<open>plugin = Some p\<close> n fr
    have "w' = ?w1\<lparr>objs := (objs ?w1)(p := (objs ?w1 p)\<lparr>plugin_name := Freed\<rparr>)\<rparr>"
      by (simp add: register_body_def Let_def)
    then show ?thesis by (simp add: appends_same)
  next
    case None
    with r \<open>plugin = Some p\<close> n fr obtain w2 where
      w2: "(if ENABLE_STATIC E then Inr ?w1 else check_plugin_depends ctor E p ?w1) = Inr w2"
        "w' = w2\<lparr>plugins := plugins w2 @ [p], pcalls := pcalls w2 @ [Registered p]\<rparr>"
      by (auto simp: register_body_def Let_def split: sum.splits)
    have "appends ?w1 w2"
      using w2(1) check_plugin_depends_appends [of ctor E p ?w1 w2, OF ctor]
      by (auto simp: appends_refl split: if_splits)
    moreover have "appends w2 w'"
      unfolding w2(2) by (auto simp: appends_iff intro: exI [of _ "[Registered p]"])
    ultimately show ?thesis using a1 appends_trans by blast
  qed
qed

lemma run_ctor_appends: "run_ctor n E p w = Inr w' \<Longrightarrow> appends w w'"
proof (induction n arbitrary: p w w')
  case 0
  then show ?case by simp
next
  case (Suc n)
  from Suc.prems obtain rc where "register_body (run_ctor n E) E (Some p) w = Inr (rc, w')"
    by (auto split: sum.splits)
  from register_body_appends [of "run_ctor n E", OF Suc.IH this] show ?case .
qed

lemma plugin_register_appends:
  "plugin_register n E plugin w = Inr (rc, w') \<Longrightarrow> appends w w'"
  unfolding plugin_register_def
  by (rule register_body_appends [of "run_ctor n E", OF run_ctor_appends])

lemma plugin_register_all_appends:
  "plugin_register_all n E ps w = Inr w' \<Longrightarrow> appends w w'"
  unfolding plugin_register_all_def
  by (rule fold_res_appends [of "run_ctor (Suc n) E", OF run_ctor_appends])

lemma names_valid_iff:
  "names_valid w \<longleftrightarrow> (\<forall>q\<in>set (plugins w). \<exists>n. plugin_name (objs w q) = Str n)"
proof -
  have "(case c of Str n \<Rightarrow> True | _ \<Rightarrow> False) = (\<exists>n. c = Str n)" for c :: cstring
    by (cases c) simp_all
  then show ?thesis by (simp add: names_valid_def list_all_iff)
qed

lemma search_plugins_valid:
  assumes "\<forall>q\<in>set ps. \<exists>n. name q = Str n"
  shows "search_plugins name s ps = Inr (find (\<lambda>q. name q = Str s) ps)"
  using assms by (induction ps) auto

lemma search_plugins_cong:
  assumes "\<forall>q\<in>set ps. name q = name' q"
  shows "search_plugins name s ps = search_plugins name' s ps"
  using assms by (induction ps) (auto split: cstring.splits)

lemma search_plugins_Some: "search_plugins name s ps = Inr (Some q) \<Longrightarrow> q \<in> set ps \<and> name q = Str s"
  by (induction ps) (auto split: cstring.splits if_splits)


lemma plugin_find_Some:
  "plugin_find E name w = Inr (Some q) \<Longrightarrow> q \<in> set (plugins w)"
  by (auto simp: plugin_find_def SEARCH_PLUGIN_def split: option.splits sum.splits if_splits
        dest: search_plugins_Some)


lemma plugin_find_objs_cong:
  assumes "\<forall>q\<in>set (plugins w). objs w' q = objs w q"
    and "plugins w' = plugins w" and "plugpath w' = plugpath w"
  shows "plugin_find E name w' = plugin_find E name w"
proof -
  have "SEARCH_PLUGIN w' s = SEARCH_PLUGIN w s" for s
    unfolding SEARCH_PLUGIN_def assms(2)
    by (rule search_plugins_cong) (simp add: assms(1))
  then have h: "SEARCH_PLUGIN w' = SEARCH_PLUGIN w" by (rule ext)
  show ?thesis unfolding plugin_find_def h assms(3) ..
qed


lemma register_body_duplicate_other:
  assumes p: "p \<notin> set (plugins w)"
    and n: "default_name E p (plugin_name (objs w p)) = Str n"
    and found: "plugin_find E (Some (trim_ext n)) w = Inr (Some q)"
  shows "register_body ctor E (Some p) w
     = Inr (0, w\<lparr>objs := (objs w)(p := (objs w p)\<lparr>plugin_name := Freed\<rparr>)\<rparr>)"
proof -
  let ?w1 = "w\<lparr>objs := (objs w)(p := (objs w p)\<lparr>plugin_name := Str (trim_ext n)\<rparr>)\<rparr>"
  have "plugin_find E (Some (trim_ext n)) ?w1 = plugin_find E (Some (trim_ext n)) w"
    by (rule plugin_find_objs_cong) (use p in auto)
  with found show ?thesis
    by (simp add: register_body_def n Let_def)
qed

lemma register_body_static_fresh:
  assumes st: "ENABLE_STATIC E"
    and n: "default_name E p (plugin_name (objs w p)) = Str n"
    and fresh: "plugin_find E (Some (trim_ext n))
        (w\<lparr>objs := (objs w)(p := (objs w p)\<lparr>plugin_name := Str (trim_ext n)\<rparr>)\<rparr>) = Inr None"
  shows "register_body ctor E (Some p) w
     = Inr (0, w\<lparr>objs := (objs w)(p := (objs w p)\<lparr>plugin_name := Str (trim_ext n)\<rparr>),
                 plugins := plugins w @ [p], pcalls := pcalls w @ [Registered p]\<rparr>)"
  using st fresh by (simp add: register_body_def n Let_def)

lemma register_body_last:
  assumes r: "register_body ctor E (Some p) w = Inr (rc, w')"
    and n: "default_name E p (plugin_name (objs w p)) = Str n"
    and fresh: "plugin_find E (Some (trim_ext n))
        (w\<lparr>objs := (objs w)(p := (objs w p)\<lparr>plugin_name := Str (trim_ext n)\<rparr>)\<rparr>) = Inr None"
  shows "plugins w' \<noteq> [] \<and> last (plugins w') = p \<and> pcalls w' \<noteq> [] \<and> last (pcalls w') = Registered p"
  using r fresh by (auto simp: register_body_def n Let_def split: sum.splits if_splits)



text \<open>
  A plugin object that is not in the list and whose trimmed name is found: the call
  returns 0, the list, its records, what has been loaded and what has been done are as
  before, and every lookup gives what it gave before.  The one thing written is the name
  of the object handed in, which is left dangling.
\<close>

lemma plugin_register_duplicate_other:
  assumes "p \<notin> set (plugins w)"
    and "default_name E p (plugin_name (objs w p)) = Str name"
    and "plugin_find E (Some (trim_ext name)) w = Inr (Some q)"
    and "w' = w\<lparr>objs := (objs w)(p := (objs w p)\<lparr>plugin_name := Freed\<rparr>)\<rparr>"
  shows "plugin_register n E (Some p) w = Inr (0, w')
       \<and> plugins w' = plugins w \<and> pcalls w' = pcalls w \<and> loaded w' = loaded w
       \<and> sys w' = sys w
       \<and> (\<forall>q\<in>set (plugins w). objs w' q = objs w q)
       \<and> plugin_find E (Some s) w' = plugin_find E (Some s) w"
proof -
  have "plugin_register n E (Some p) w = Inr (0, w')"
    unfolding plugin_register_def assms(4) by (rule register_body_duplicate_other [OF assms(1-3)])
  moreover have "plugin_find E (Some s) w' = plugin_find E (Some s) w"
    by (rule plugin_find_objs_cong) (use assms(1,4) in auto)
  ultimately show ?thesis using assms(1) by (auto simp: assms(4))
qed

lemma plugin_find_static_None:
  assumes "names_valid w" and "plugpath w = None"
    and "\<forall>q\<in>set (plugins w). plugin_name (objs w q) \<noteq> Str s"
  shows "plugin_find E (Some s) w = Inr None"
proof -
  have "search_plugins (\<lambda>p. plugin_name (objs w p)) s (plugins w)
      = Inr (find (\<lambda>q. plugin_name (objs w q) = Str s) (plugins w))"
    using assms(1) by (intro search_plugins_valid) (simp add: names_valid_iff)
  moreover have "find (\<lambda>q. plugin_name (objs w q) = Str s) (plugins w) = None"
    using assms(3) by (simp add: find_None_iff)
  ultimately show ?thesis by (simp add: plugin_find_def SEARCH_PLUGIN_def assms(2))
qed

lemma registered_name_Str:
  "registered_name E w p \<noteq> Freed \<Longrightarrow>
   \<exists>n. default_name E p (plugin_name (objs w p)) = Str n \<and> registered_name E w p = Str (trim_ext n)"
  by (auto simp: registered_name_def default_name_def split: cstring.splits option.splits)

lemma registered_name_cong:
  "objs w' p = objs w p \<Longrightarrow> registered_name E w' p = registered_name E w p"
  by (simp add: registered_name_def)

lemma plugin_register_all_static:
  assumes st: "ENABLE_STATIC E" and pp: "plugpath w = None" and valid: "names_valid w"
    and rd: "\<forall>p\<in>set ps. registered_name E w p \<noteq> Freed"
    and dist: "distinct (map (registered_name E w) ps)"
    and fresh: "\<forall>q\<in>set (plugins w). \<forall>p\<in>set ps. plugin_name (objs w q) \<noteq> registered_name E w p"
    and notin: "set ps \<inter> set (plugins w) = {}"
  shows "plugin_register_all n E ps w =
    Inr (w\<lparr>objs := (\<lambda>q. if q \<in> set ps then (objs w q)\<lparr>plugin_name := registered_name E w q\<rparr>
                         else objs w q),
           plugins := plugins w @ ps,
           pcalls := pcalls w @ map Registered ps\<rparr>)"
  using pp valid rd dist fresh notin
proof (induction ps arbitrary: w)
  case Nil
  then show ?case by (simp add: plugin_register_all_def)
next
  case (Cons p ps)
  from Cons.prems(3) have "registered_name E w p \<noteq> Freed" by simp
  from registered_name_Str [OF this] obtain n0 where
    n0: "default_name E p (plugin_name (objs w p)) = Str n0"
        "registered_name E w p = Str (trim_ext n0)" by blast
  let ?w0 = "w\<lparr>objs := (objs w)(p := (objs w p)\<lparr>plugin_name := Str (trim_ext n0)\<rparr>)\<rparr>"
  let ?w1 = "w\<lparr>objs := (objs w)(p := (objs w p)\<lparr>plugin_name := Str (trim_ext n0)\<rparr>),
                 plugins := plugins w @ [p], pcalls := pcalls w @ [Registered p]\<rparr>"
  have pn: "p \<notin> set (plugins w)" using Cons.prems(6) by auto
  have v0: "names_valid ?w0" using Cons.prems(2) pn by (auto simp: names_valid_iff)
  have fr0: "\<forall>q\<in>set (plugins ?w0). plugin_name (objs ?w0 q) \<noteq> Str (trim_ext n0)"
    using Cons.prems(5) pn n0(2) by auto
  have fresh0: "plugin_find E (Some (trim_ext n0)) ?w0 = Inr None"
    by (rule plugin_find_static_None [OF v0 _ fr0]) (simp add: Cons.prems(1))
  have step: "run_ctor (Suc n) E p w = Inr ?w1"
    by (simp add: register_body_static_fresh [OF st n0(1) fresh0])
  have pps: "p \<notin> set ps" using Cons.prems(4) by auto
  have same: "\<forall>q\<in>set ps. registered_name E ?w1 q = registered_name E w q"
    using pps by (auto intro!: registered_name_cong)
  then have map_same: "map (registered_name E ?w1) ps = map (registered_name E w) ps"
    by simp
  have ih: "plugin_register_all n E ps ?w1 =
    Inr (?w1\<lparr>objs := (\<lambda>q. if q \<in> set ps then (objs ?w1 q)\<lparr>plugin_name := registered_name E ?w1 q\<rparr>
                         else objs ?w1 q),
           plugins := plugins ?w1 @ ps,
           pcalls := pcalls ?w1 @ map Registered ps\<rparr>)"
  proof (rule Cons.IH)
    show "plugpath ?w1 = None" using Cons.prems(1) by simp
    show "names_valid ?w1" using Cons.prems(2) by (auto simp: names_valid_iff)
    show "\<forall>p\<in>set ps. registered_name E ?w1 p \<noteq> Freed" using same Cons.prems(3) by simp
    show "distinct (map (registered_name E ?w1) ps)"
      unfolding map_same using Cons.prems(4) by simp
    show "\<forall>q\<in>set (plugins ?w1). \<forall>p\<in>set ps. plugin_name (objs ?w1 q) \<noteq> registered_name E ?w1 p"
    proof (intro ballI)
      fix q r assume q: "q \<in> set (plugins ?w1)" and r: "r \<in> set ps"
      have rr: "registered_name E ?w1 r = registered_name E w r" using same r by blast
      show "plugin_name (objs ?w1 q) \<noteq> registered_name E ?w1 r"
      proof (cases "q = p")
        case True
        have "registered_name E w p \<noteq> registered_name E w r" using Cons.prems(4) r by auto
        then show ?thesis using True rr n0(2) by simp
      next
        case False
        with q have "q \<in> set (plugins w)" by simp
        then show ?thesis using Cons.prems(5) r rr False by simp
      qed
    qed
    show "set ps \<inter> set (plugins ?w1) = {}" using Cons.prems(6) pps by auto
  qed
  have objs_eq: "(\<lambda>q. if q \<in> set ps then (objs ?w1 q)\<lparr>plugin_name := registered_name E ?w1 q\<rparr>
                         else objs ?w1 q)
      = (\<lambda>q. if q \<in> set (p # ps) then (objs w q)\<lparr>plugin_name := registered_name E w q\<rparr>
                         else objs w q)"
  proof (rule ext)
    fix q
    show "(if q \<in> set ps then (objs ?w1 q)\<lparr>plugin_name := registered_name E ?w1 q\<rparr>
                         else objs ?w1 q)
      = (if q \<in> set (p # ps) then (objs w q)\<lparr>plugin_name := registered_name E w q\<rparr>
                         else objs w q)"
      using same pps n0(2) by (cases "q = p") auto
  qed
  have "plugin_register_all n E (p # ps) w = plugin_register_all n E ps ?w1"
    using step by (simp add: plugin_register_all_def)
  then show ?case unfolding ih objs_eq by simp
qed

lemma fold_res_invariant:
  assumes pres: "\<And>x s s'. I s \<Longrightarrow> f x s = Inr s' \<Longrightarrow> I s'"
    and init: "I s" and r: "fold_res f xs s = Inr s'"
  shows "I s'"
  using init r
proof (induction xs arbitrary: s)
  case Nil
  then show ?case by simp
next
  case (Cons x xs)
  from Cons.prems(2) obtain s1 where s1: "f x s = Inr s1" "fold_res f xs s1 = Inr s'"
    by (auto split: sum.splits)
  from pres [OF Cons.prems(1) s1(1)] have "I s1" .
  from Cons.IH [OF this s1(2)] show ?case .
qed

lemma dlopen_loaded:
  assumes ctor: "\<And>p s s'. ctor p s = Inr s' \<Longrightarrow> set (loaded s) \<subseteq> set (loaded s')"
    and r: "dlopen ctor E f w = Inr (h, w')"
  shows "set (loaded w) \<subseteq> set (loaded w')"
proof (cases "dl_ctors E f")
  case None
  with r show ?thesis by (simp add: dlopen_def)
next
  case (Some cs)
  show ?thesis
  proof (cases "f \<in> set (loaded w)")
    case True
    with r Some show ?thesis by (simp add: dlopen_def)
  next
    case False
    with r Some have fr: "fold_res ctor cs (w\<lparr>loaded := f # loaded w\<rparr>) = Inr w'"
      by (auto simp: dlopen_def split: sum.splits)
    show "set (loaded w) \<subseteq> set (loaded w')"
    proof (rule fold_res_invariant [of "\<lambda>s. set (loaded w) \<subseteq> set (loaded s)" ctor, OF _ _ fr])
      fix x s s' assume "set (loaded w) \<subseteq> set (loaded s)" "ctor x s = Inr s'"
      with ctor [of x s s'] show "set (loaded w) \<subseteq> set (loaded s')" by blast
    next
      show "set (loaded w) \<subseteq> set (loaded (w\<lparr>loaded := f # loaded w\<rparr>))" by auto
    qed
  qed
qed

lemma load_one_loaded:
  assumes ctor: "\<And>p s s'. ctor p s = Inr s' \<Longrightarrow> set (loaded s) \<subseteq> set (loaded s')"
    and r: "load_one ctor E path name w = Inr (rc, w')"
  shows "set (loaded w) \<subseteq> set (loaded w')"
proof (cases "\<exists>pa n. path = Some pa \<and> name = Some n \<and> fisdir E pa")
  case False
  with r have "w' = w" by (auto simp: load_one_def split: option.splits if_splits)
  then show ?thesis by simp
next
  case True
  then obtain pa n where pn: "path = Some pa" "name = Some n" "fisdir E pa" by blast
  let ?so = "take (CMD_SIZE E - 1) (pa @ ''/'' @ n @ (if noext n then ''.so'' else []))"
  let ?w0 = "w\<lparr>pcalls := pcalls w @ [Dlopen ?so]\<rparr>"
  from r pn obtain h w1 where d: "dlopen ctor E ?so ?w0 = Inr (h, w1)"
    by (auto simp: load_one_def Let_def split: sum.splits)
  have a1: "set (loaded ?w0) \<subseteq> set (loaded w1)" by (rule dlopen_loaded [OF ctor d])
  have a2: "loaded w' = loaded w1"
    using r pn d by (auto simp: load_one_def Let_def split: option.splits if_splits)
  from a1 a2 show ?thesis by simp
qed

lemma check_plugin_depends_loaded:
  assumes ctor: "\<And>p s s'. ctor p s = Inr s' \<Longrightarrow> set (loaded s) \<subseteq> set (loaded s')"
    and r: "check_plugin_depends ctor E p w = Inr w'"
  shows "set (loaded w) \<subseteq> set (loaded w')"
proof -
  let ?f = "\<lambda>dep w. case plugin_find E (Some dep) w of
                   Inl e \<Rightarrow> Inl e
                 | Inr (Some p) \<Rightarrow> Inr w
                 | Inr None \<Rightarrow>
                     (case load_one ctor E (plugpath w) (Some dep) w of
                        Inl e \<Rightarrow> Inl e
                      | Inr (rc, w1) \<Rightarrow> Inr w1)"
  have step: "set (loaded s) \<subseteq> set (loaded s')" if a: "?f x s = Inr s'" for x s s'
  proof -
    from a have "s' = s \<or> (\<exists>rc. load_one ctor E (plugpath s) (Some x) s = Inr (rc, s'))"
      by (auto split: sum.splits option.splits)
    moreover have "load_one ctor E pa na w0 = Inr (rc, w1) \<Longrightarrow> set (loaded w0) \<subseteq> set (loaded w1)"
      for pa na w0 rc w1
      by (rule load_one_loaded [OF ctor])
    ultimately show ?thesis by blast
  qed
  from r have fr: "fold_res ?f (take (PLUGIN_DEP_MAX E) (plugin_depends (objs w p))) w = Inr w'"
    by (simp add: check_plugin_depends_def)
  show ?thesis
  proof (rule fold_res_invariant [of "\<lambda>s. set (loaded w) \<subseteq> set (loaded s)" ?f, OF _ _ fr])
    fix x s s' assume "set (loaded w) \<subseteq> set (loaded s)" "?f x s = Inr s'"
    with step show "set (loaded w) \<subseteq> set (loaded s')" by blast
  next
    show "set (loaded w) \<subseteq> set (loaded w)" by simp
  qed
qed

lemma register_body_loaded:
  assumes ctor: "\<And>p s s'. ctor p s = Inr s' \<Longrightarrow> set (loaded s) \<subseteq> set (loaded s')"
    and r: "register_body ctor E plugin w = Inr (rc, w')"
  shows "set (loaded w) \<subseteq> set (loaded w')"
proof (cases plugin)
  case None
  with r show ?thesis by (simp add: register_body_def)
next
  case (Some p)
  from r Some obtain n where n: "default_name E p (plugin_name (objs w p)) = Str n"
    by (auto simp: register_body_def split: cstring.splits)
  let ?w1 = "w\<lparr>objs := (objs w)(p := (objs w p)\<lparr>plugin_name := Str (trim_ext n)\<rparr>)\<rparr>"
  from r Some n obtain fr where fr: "plugin_find E (Some (trim_ext n)) ?w1 = Inr fr"
    by (auto simp: register_body_def Let_def split: sum.splits)
  show ?thesis
  proof (cases fr)
    case (Some q)
    with r \<open>plugin = Some p\<close> n fr show ?thesis
      by (auto simp: register_body_def Let_def)
  next
    case None
    with r \<open>plugin = Some p\<close> n fr obtain w2 where
      w2: "(if ENABLE_STATIC E then Inr ?w1 else check_plugin_depends ctor E p ?w1) = Inr w2"
        "w' = w2\<lparr>plugins := plugins w2 @ [p], pcalls := pcalls w2 @ [Registered p]\<rparr>"
      by (auto simp: register_body_def Let_def split: sum.splits)
    have "set (loaded ?w1) \<subseteq> set (loaded w2)"
      using w2(1) check_plugin_depends_loaded [of ctor E p ?w1 w2, OF ctor]
      by (auto split: if_splits)
    then show ?thesis by (simp add: w2(2))
  qed
qed

lemma run_ctor_loaded: "run_ctor n E p w = Inr w' \<Longrightarrow> set (loaded w) \<subseteq> set (loaded w')"
proof (induction n arbitrary: p w w')
  case 0
  then show ?case by simp
next
  case (Suc n)
  from Suc.prems obtain rc where "register_body (run_ctor n E) E (Some p) w = Inr (rc, w')"
    by (auto split: sum.splits)
  from register_body_loaded [of "run_ctor n E", OF Suc.IH this] show ?case .
qed

lemma search_plugins_fuel: "search_plugins name s ps \<noteq> Inl OutOfFuel"
  by (induction ps) (auto split: cstring.splits)

lemma plugin_find_fuel: "plugin_find E name w \<noteq> Inl OutOfFuel"
  by (auto simp: plugin_find_def SEARCH_PLUGIN_def search_plugins_fuel
        split: option.splits sum.splits)

lemma loadable_mono:
  "set (loaded w) \<subseteq> set (loaded w') \<Longrightarrow> loadable E w' \<subseteq> loadable E w"
  by (auto simp: loadable_def)

lemma loadable_finite:
  "finite {f. dl_ctors E f \<noteq> None} \<Longrightarrow> finite (loadable E w)"
  by (rule finite_subset [of _ "{f. dl_ctors E f \<noteq> None}"]) (auto simp: loadable_def)

lemma loadable_card_mono:
  assumes "finite {f. dl_ctors E f \<noteq> None}" and "set (loaded w) \<subseteq> set (loaded w')"
  shows "card (loadable E w') \<le> card (loadable E w)"
  by (rule card_mono [OF loadable_finite [OF assms(1)] loadable_mono [OF assms(2)]])

lemma fold_res_fuel:
  assumes step: "\<And>x s. I s \<Longrightarrow> f x s \<noteq> Inl OutOfFuel"
    and pres: "\<And>x s s'. I s \<Longrightarrow> f x s = Inr s' \<Longrightarrow> I s'"
  shows "I s \<Longrightarrow> fold_res f xs s \<noteq> Inl OutOfFuel"
proof (induction xs arbitrary: s)
  case Nil
  then show ?case by simp
next
  case (Cons x xs)
  show ?case
  proof (cases "f x s")
    case (Inl e)
    with step [OF Cons.prems, of x] show ?thesis by simp
  next
    case (Inr s1)
    from pres [OF Cons.prems Inr] have "I s1" .
    from Cons.IH [OF this] Inr show ?thesis by simp
  qed
qed

lemma dlopen_fuel:
  assumes fin: "finite {f. dl_ctors E f \<noteq> None}"
    and mono: "\<And>p s s'. ctor p s = Inr s' \<Longrightarrow> set (loaded s) \<subseteq> set (loaded s')"
    and ok: "\<And>p s. card (loadable E s) < k \<Longrightarrow> ctor p s \<noteq> Inl OutOfFuel"
    and k: "card (loadable E w) \<le> k"
  shows "dlopen ctor E f w \<noteq> Inl OutOfFuel"
proof (cases "dl_ctors E f")
  case None
  then show ?thesis by (simp add: dlopen_def)
next
  case (Some cs)
  show ?thesis
  proof (cases "f \<in> set (loaded w)")
    case True
    with Some show ?thesis by (simp add: dlopen_def)
  next
    case False
    let ?w0 = "w\<lparr>loaded := f # loaded w\<rparr>"
    have fin_w: "finite (loadable E w)" by (rule loadable_finite [OF fin])
    have fin': "f \<in> loadable E w" using Some False by (simp add: loadable_def)
    have eq: "loadable E ?w0 = loadable E w - {f}" by (auto simp: loadable_def)
    have "card (loadable E ?w0) < card (loadable E w)"
      unfolding eq by (rule card_Diff1_less [OF fin_w fin'])
    with k have i0: "card (loadable E ?w0) < k" by simp
    have "fold_res ctor cs ?w0 \<noteq> Inl OutOfFuel"
    proof (rule fold_res_fuel [of "\<lambda>s. card (loadable E s) < k" ctor, OF _ _ i0])
      show "\<And>x s. card (loadable E s) < k \<Longrightarrow> ctor x s \<noteq> Inl OutOfFuel" by (rule ok)
      show "\<And>x s s'. card (loadable E s) < k \<Longrightarrow> ctor x s = Inr s' \<Longrightarrow> card (loadable E s') < k"
        using loadable_card_mono [OF fin mono] by (meson le_less_trans)
    qed
    with Some False show ?thesis by (auto simp: dlopen_def split: sum.splits)
  qed
qed

lemma load_one_fuel:
  assumes fin: "finite {f. dl_ctors E f \<noteq> None}"
    and mono: "\<And>p s s'. ctor p s = Inr s' \<Longrightarrow> set (loaded s) \<subseteq> set (loaded s')"
    and ok: "\<And>p s. card (loadable E s) < k \<Longrightarrow> ctor p s \<noteq> Inl OutOfFuel"
    and k: "card (loadable E w) \<le> k"
  shows "load_one ctor E path name w \<noteq> Inl OutOfFuel"
proof -
  have "dlopen ctor E f (w\<lparr>pcalls := pcalls w @ [c]\<rparr>) \<noteq> Inl OutOfFuel" for f c
    by (rule dlopen_fuel [OF fin mono ok]) (use k in \<open>simp_all add: loadable_def\<close>)
  then show ?thesis
    by (auto simp: load_one_def Let_def split: option.splits sum.splits if_splits)
qed

lemma check_plugin_depends_fuel:
  assumes fin: "finite {f. dl_ctors E f \<noteq> None}"
    and mono: "\<And>p s s'. ctor p s = Inr s' \<Longrightarrow> set (loaded s) \<subseteq> set (loaded s')"
    and ok: "\<And>p s. card (loadable E s) < k \<Longrightarrow> ctor p s \<noteq> Inl OutOfFuel"
    and k: "card (loadable E w) \<le> k"
  shows "check_plugin_depends ctor E p w \<noteq> Inl OutOfFuel"
proof -
  let ?f = "\<lambda>dep w. case plugin_find E (Some dep) w of
                   Inl e \<Rightarrow> Inl e
                 | Inr (Some p) \<Rightarrow> Inr w
                 | Inr None \<Rightarrow>
                     (case load_one ctor E (plugpath w) (Some dep) w of
                        Inl e \<Rightarrow> Inl e
                      | Inr (rc, w1) \<Rightarrow> Inr w1)"
  have "fold_res ?f (take (PLUGIN_DEP_MAX E) (plugin_depends (objs w p))) w \<noteq> Inl OutOfFuel"
  proof (rule fold_res_fuel [of "\<lambda>s. card (loadable E s) \<le> k" ?f, OF _ _ k])
    fix x s assume s: "card (loadable E s) \<le> k"
    have "load_one ctor E (plugpath s) (Some x) s \<noteq> Inl OutOfFuel"
      by (rule load_one_fuel [OF fin mono ok s])
    then show "?f x s \<noteq> Inl OutOfFuel"
      using plugin_find_fuel [of E "Some x" s]
      by (auto split: sum.splits option.splits)
  next
    fix x s s' assume s: "card (loadable E s) \<le> k" and r: "?f x s = Inr s'"
    from r have "s' = s \<or> (\<exists>rc. load_one ctor E (plugpath s) (Some x) s = Inr (rc, s'))"
      by (auto split: sum.splits option.splits)
    moreover have "load_one ctor E pa na w0 = Inr (rc, w1) \<Longrightarrow> set (loaded w0) \<subseteq> set (loaded w1)"
      for pa na w0 rc w1
      by (rule load_one_loaded [OF mono])
    ultimately have "set (loaded s) \<subseteq> set (loaded s')" by blast
    from loadable_card_mono [OF fin this] s show "card (loadable E s') \<le> k" by simp
  qed
  then show ?thesis by (simp add: check_plugin_depends_def)
qed

lemma register_body_fuel:
  assumes fin: "finite {f. dl_ctors E f \<noteq> None}"
    and mono: "\<And>p s s'. ctor p s = Inr s' \<Longrightarrow> set (loaded s) \<subseteq> set (loaded s')"
    and ok: "\<And>p s. card (loadable E s) < k \<Longrightarrow> ctor p s \<noteq> Inl OutOfFuel"
    and k: "card (loadable E w) \<le> k"
  shows "register_body ctor E plugin w \<noteq> Inl OutOfFuel"
proof -
  have "check_plugin_depends ctor E p (w\<lparr>objs := ob\<rparr>) \<noteq> Inl OutOfFuel" for p ob
    by (rule check_plugin_depends_fuel [OF fin mono ok]) (use k in \<open>simp_all add: loadable_def\<close>)
  then show ?thesis
    using plugin_find_fuel [of E]
    by (auto simp: register_body_def Let_def split: option.splits sum.splits cstring.splits)
qed

lemma run_ctor_fuel:
  assumes fin: "finite {f. dl_ctors E f \<noteq> None}"
  shows "card (loadable E w) < n \<Longrightarrow> run_ctor n E p w \<noteq> Inl OutOfFuel"
proof (induction n arbitrary: p w)
  case 0
  then show ?case by simp
next
  case (Suc n)
  from Suc.prems have k: "card (loadable E w) \<le> n" by arith
  have "register_body (run_ctor n E) E (Some p) w \<noteq> Inl OutOfFuel"
    by (rule register_body_fuel [OF fin run_ctor_loaded Suc.IH k])
  then show ?case by (auto split: sum.splits)
qed

lemma plugin_register_fuel:
  assumes "finite {f. dl_ctors E f \<noteq> None}" and "card (loadable E w) \<le> n"
  shows "plugin_register n E plugin w \<noteq> Inl OutOfFuel"
  unfolding plugin_register_def
  by (rule register_body_fuel [OF assms(1) run_ctor_loaded run_ctor_fuel [OF assms(1)] assms(2)])

lemma plugin_register_static_fuel:
  assumes "ENABLE_STATIC E"
  shows "plugin_register n E plugin w \<noteq> Inl OutOfFuel"
  using assms plugin_find_fuel [of E]
  by (auto simp: plugin_register_def register_body_def Let_def
        split: option.splits sum.splits cstring.splits)

lemma sample_dynamic_registration:
  "plugin_register 1 sample_dynamic_env (Some 40) dynamic_pstate = Inr (0, delta_pstate)"
  by (simp add: plugin_sample_defs plugin_eval Let_def)

lemma hook_arg_of_hooks:
  assumes "\<forall>p. plugin_hook (objs w' p) = plugin_hook (objs w p)"
  shows "hook_arg_of w' no arg = hook_arg_of w no arg"
  by (rule ext) (simp add: hook_arg_of_def assms)

lemma run_callbacks_hooks:
  assumes "\<forall>p. plugin_hook (objs w' p) = plugin_hook (objs w p)"
  shows "run_callbacks w' no arg = run_callbacks w no arg"
proof -
  have h: "hook_arg_of w' no arg = hook_arg_of w no arg" by (rule hook_arg_of_hooks [OF assms])
  have g: "(\<lambda>p. plugin_hook (objs w' p)) = (\<lambda>p. plugin_hook (objs w p))"
    by (rule ext) (simp add: assms)
  then have g': "\<And>p. plugin_hook (objs w' p) = plugin_hook (objs w p)" using assms by blast
  show ?thesis by (intro ext) (simp only: run_callbacks_def h g')
qed

lemma registered_no_hook:
  "registered (tr @ map (\<lambda>p. HookCb p no (a p)) ps @ cs @ [ServiceStepAll t]) = registered tr"
  if "cs = [] \<or> (\<exists>c. cs = [CondSetOneshot c])"
proof -
  have "registered (map (\<lambda>p. HookCb p no (a p)) ps) = []" by (induction ps) simp_all
  moreover have "registered cs = []" using that by auto
  ultimately show ?thesis by (simp add: registered_append)
qed

lemma plugin_run_hook_registered:
  "registered (pcalls (plugin_run_hook E no arg w)) = registered (pcalls w)"
  unfolding plugin_run_hook_calls by (rule registered_no_hook) simp

text \<open>
  Claim C7.  \<^verbatim>\<open>plugin_run_hook\<close> calls the callback of exactly the plugins that have one at
  the hook point, once for each, in the order of the list from head to tail, and what the
  callbacks do to the system happens in that order.  The list is in the order in which the
  plugins were registered, in every build: \<^verbatim>\<open>plugin_register\<close> leaves the plugins of the
  list where they are and links behind them, in the order in which it links them, the
  plugins that the resolution of the dependencies registers and then, last, the plugin
  itself; so does a run of several constructors.  Hence a list that holds the plugins in
  the order in which they were linked does so after any registrations and hook runs.  A
  registration ends: the constructors it sets off are nested no deeper than the number of
  shared objects not loaded yet, and in a static build it sets off none.  In a static
  build, for plugins of distinct names registered one after another into the empty list,
  the list is the sequence of the registrations, and the callbacks run in that order.

  In the dynamic build the plugin that \<^verbatim>\<open>plugin_register\<close> is called on first is not always
  the one registered first: a dependency that has to be loaded is registered, by its own
  constructor, before the plugin that depends on it is linked.
\<close>

theorem run_hook_registration_order:
  "pcalls (plugin_run_hook E no arg w) =
     pcalls w
     @ map (\<lambda>p. HookCb p no (hook_arg_of w no arg p))
         (filter (\<lambda>p. hook_cb (plugin_hook (objs w p) no) \<noteq> None) (plugins w))
     @ (if HOOK_MOUNT_ERROR E \<le> no then [CondSetOneshot (hook_cond E no)] else [])
     @ [ServiceStepAll {SVC_TYPE_RUNTASK}]
   \<and> sys (plugin_run_hook E no arg w) =
       step_all E {SVC_TYPE_RUNTASK}
         ((if HOOK_MOUNT_ERROR E \<le> no then cond_set_oneshot E (hook_cond E no) else id)
            (run_callbacks w no arg (plugins w) (sys w)))
   \<and> (plugin_register n E pl w = Inr (rc, w') \<longrightarrow>
        (\<exists>tr. pcalls w' = pcalls w @ tr \<and> plugins w' = plugins w @ registered tr))
   \<and> (plugin_register n E (Some p) w = Inr (rc, w') \<and> registered_name E w p = Str name
        \<and> plugin_find E (Some name)
             (w\<lparr>objs := (objs w)(p := (objs w p)\<lparr>plugin_name := Str name\<rparr>)\<rparr>) = Inr None \<longrightarrow>
        plugins w' \<noteq> [] \<and> last (plugins w') = p
        \<and> pcalls w' \<noteq> [] \<and> last (pcalls w') = Registered p)
   \<and> (plugin_register_all n E ps w = Inr w'' \<longrightarrow>
        (\<exists>tr. pcalls w'' = pcalls w @ tr \<and> plugins w'' = plugins w @ registered tr))
   \<and> (plugins w = registered (pcalls w) \<and> plugin_register_all n E ps w = Inr w'' \<longrightarrow>
        plugins w'' = registered (pcalls w'')
        \<and> plugins (plugin_run_hook E no arg w'')
            = registered (pcalls (plugin_run_hook E no arg w'')))
   \<and> (finite {f. dl_ctors E f \<noteq> None} \<and> card (loadable E w) \<le> n \<longrightarrow>
        plugin_register n E pl w \<noteq> Inl OutOfFuel)
   \<and> (ENABLE_STATIC E \<longrightarrow> plugin_register n E pl w \<noteq> Inl OutOfFuel)
   \<and> (ENABLE_STATIC E \<and> plugins w = [] \<and> plugpath w = None
        \<and> distinct (map (registered_name E w) ps)
        \<and> Freed \<notin> set (map (registered_name E w) ps) \<longrightarrow>
        (\<exists>v. plugin_register_all n E ps w = Inr v
           \<and> plugins v = ps
           \<and> pcalls (plugin_run_hook E no arg v) =
               pcalls w @ map Registered ps
               @ map (\<lambda>p. HookCb p no (hook_arg_of w no arg p))
                   (filter (\<lambda>p. hook_cb (plugin_hook (objs w p) no) \<noteq> None) ps)
               @ (if HOOK_MOUNT_ERROR E \<le> no then [CondSetOneshot (hook_cond E no)] else [])
               @ [ServiceStepAll {SVC_TYPE_RUNTASK}]
           \<and> sys (plugin_run_hook E no arg v) =
               step_all E {SVC_TYPE_RUNTASK}
                 ((if HOOK_MOUNT_ERROR E \<le> no then cond_set_oneshot E (hook_cond E no) else id)
                    (run_callbacks w no arg ps (sys w)))))"
proof (intro conjI impI)
  show "pcalls (plugin_run_hook E no arg w) =
     pcalls w
     @ map (\<lambda>p. HookCb p no (hook_arg_of w no arg p))
         (filter (\<lambda>p. hook_cb (plugin_hook (objs w p) no) \<noteq> None) (plugins w))
     @ (if HOOK_MOUNT_ERROR E \<le> no then [CondSetOneshot (hook_cond E no)] else [])
     @ [ServiceStepAll {SVC_TYPE_RUNTASK}]"
    by (rule plugin_run_hook_calls)
  show "sys (plugin_run_hook E no arg w) =
       step_all E {SVC_TYPE_RUNTASK}
         ((if HOOK_MOUNT_ERROR E \<le> no then cond_set_oneshot E (hook_cond E no) else id)
            (run_callbacks w no arg (plugins w) (sys w)))"
    by (rule plugin_run_hook_sys)
next
  assume "plugin_register n E pl w = Inr (rc, w')"
  then have "appends w w'" by (rule plugin_register_appends)
  then show "\<exists>tr. pcalls w' = pcalls w @ tr \<and> plugins w' = plugins w @ registered tr"
    by (simp add: appends_iff)
next
  assume a: "plugin_register n E (Some p) w = Inr (rc, w') \<and> registered_name E w p = Str name
        \<and> plugin_find E (Some name)
             (w\<lparr>objs := (objs w)(p := (objs w p)\<lparr>plugin_name := Str name\<rparr>)\<rparr>) = Inr None"
  then have "registered_name E w p \<noteq> Freed" by simp
  from registered_name_Str [OF this] a obtain n0 where
    n0: "default_name E p (plugin_name (objs w p)) = Str n0" "name = trim_ext n0" by auto
  from a have r: "register_body (run_ctor n E) E (Some p) w = Inr (rc, w')"
    by (simp add: plugin_register_def)
  from a have fr: "plugin_find E (Some (trim_ext n0))
        (w\<lparr>objs := (objs w)(p := (objs w p)\<lparr>plugin_name := Str (trim_ext n0)\<rparr>)\<rparr>) = Inr None"
    by (simp add: n0(2))
  from register_body_last [OF r n0(1) fr]
  show "plugins w' \<noteq> []" "last (plugins w') = p" "pcalls w' \<noteq> []"
    "last (pcalls w') = Registered p"
    by blast+
next
  assume "plugin_register_all n E ps w = Inr w''"
  then have "appends w w''" by (rule plugin_register_all_appends)
  then show "\<exists>tr. pcalls w'' = pcalls w @ tr \<and> plugins w'' = plugins w @ registered tr"
    by (simp add: appends_iff)
next
  assume a: "plugins w = registered (pcalls w) \<and> plugin_register_all n E ps w = Inr w''"
  then have "appends w w''" by (blast intro: plugin_register_all_appends)
  then obtain tr where "pcalls w'' = pcalls w @ tr" "plugins w'' = plugins w @ registered tr"
    by (auto simp: appends_iff)
  with a show inv: "plugins w'' = registered (pcalls w'')"
    by (simp add: registered_append)
  show "plugins (plugin_run_hook E no arg w'')
            = registered (pcalls (plugin_run_hook E no arg w''))"
    by (simp add: plugin_run_hook_registered plugin_run_hook_rest inv)
next
  assume "finite {f. dl_ctors E f \<noteq> None} \<and> card (loadable E w) \<le> n"
  then have "finite {f. dl_ctors E f \<noteq> None}" "card (loadable E w) \<le> n" by simp_all
  then show "plugin_register n E pl w \<noteq> Inl OutOfFuel"
    by (rule plugin_register_fuel)
next
  assume "ENABLE_STATIC E"
  then show "plugin_register n E pl w \<noteq> Inl OutOfFuel"
    by (rule plugin_register_static_fuel)
next
  assume a: "ENABLE_STATIC E \<and> plugins w = [] \<and> plugpath w = None
        \<and> distinct (map (registered_name E w) ps)
        \<and> Freed \<notin> set (map (registered_name E w) ps)"
  let ?v = "w\<lparr>objs := (\<lambda>q. if q \<in> set ps then (objs w q)\<lparr>plugin_name := registered_name E w q\<rparr>
                         else objs w q),
           plugins := plugins w @ ps,
           pcalls := pcalls w @ map Registered ps\<rparr>"
  have valid: "names_valid w" using a by (simp add: names_valid_def)
  have rd: "\<forall>p\<in>set ps. registered_name E w p \<noteq> Freed"
    using a by (metis image_eqI list.set_map)
  have all: "plugin_register_all n E ps w = Inr ?v"
    by (rule plugin_register_all_static [OF _ _ valid rd]) (use a in auto)
  have hooks: "\<forall>p. plugin_hook (objs ?v p) = plugin_hook (objs w p)" by simp
  have h1: "hook_arg_of ?v no arg = hook_arg_of w no arg" by (rule hook_arg_of_hooks [OF hooks])
  have h2: "run_callbacks ?v no arg = run_callbacks w no arg"
    by (rule run_callbacks_hooks [OF hooks])
  have h3: "filter (\<lambda>p. hook_cb (plugin_hook (objs ?v p) no) \<noteq> None) ps
      = filter (\<lambda>p. hook_cb (plugin_hook (objs w p) no) \<noteq> None) ps"
    by (rule filter_cong) simp_all
  have pl: "plugins ?v = ps" "pcalls ?v = pcalls w @ map Registered ps" "sys ?v = sys w"
    using a by simp_all
  have c: "pcalls (plugin_run_hook E no arg ?v) =
               pcalls w @ map Registered ps
               @ map (\<lambda>p. HookCb p no (hook_arg_of w no arg p))
                   (filter (\<lambda>p. hook_cb (plugin_hook (objs w p) no) \<noteq> None) ps)
               @ (if HOOK_MOUNT_ERROR E \<le> no then [CondSetOneshot (hook_cond E no)] else [])
               @ [ServiceStepAll {SVC_TYPE_RUNTASK}]"
    unfolding plugin_run_hook_calls pl h1 h3 by simp
  have s: "sys (plugin_run_hook E no arg ?v) =
               step_all E {SVC_TYPE_RUNTASK}
                 ((if HOOK_MOUNT_ERROR E \<le> no then cond_set_oneshot E (hook_cond E no) else id)
                    (run_callbacks w no arg ps (sys w)))"
    unfolding plugin_run_hook_sys pl h2 ..
  from all pl(1) c s
  show "\<exists>v. plugin_register_all n E ps w = Inr v
           \<and> plugins v = ps
           \<and> pcalls (plugin_run_hook E no arg v) =
               pcalls w @ map Registered ps
               @ map (\<lambda>p. HookCb p no (hook_arg_of w no arg p))
                   (filter (\<lambda>p. hook_cb (plugin_hook (objs w p) no) \<noteq> None) ps)
               @ (if HOOK_MOUNT_ERROR E \<le> no then [CondSetOneshot (hook_cond E no)] else [])
               @ [ServiceStepAll {SVC_TYPE_RUNTASK}]
           \<and> sys (plugin_run_hook E no arg v) =
               step_all E {SVC_TYPE_RUNTASK}
                 ((if HOOK_MOUNT_ERROR E \<le> no then cond_set_oneshot E (hook_cond E no) else id)
                    (run_callbacks w no arg ps (sys w)))"
    by blast
qed

text \<open>
  In the static build the constructors of the first three plugins run one after another,
  and the callbacks at hook point 4 run in that order.  In the dynamic build the
  constructor of the fourth plugin, whose dependency \<^verbatim>\<open>charlie\<close> is not loaded, loads
  \<^verbatim>\<open>charlie.so\<close>, whose constructor registers the third plugin before the fourth enters the
  list; the callbacks at hook point 4 run in that order.
\<close>

theorem run_hook_registration_order_witness:
  "plugin_register_all 0 sample_plugin_env [10, 20, 30] empty_pstate = Inr static_pstate
   \<and> plugins static_pstate = [10, 20, 30]
   \<and> pcalls (plugin_run_hook sample_plugin_env 4 0 static_pstate)
       = [Registered 10, Registered 20, Registered 30, HookCb 10 4 7, HookCb 30 4 9,
          CondSetOneshot ''hook/mount/all'', ServiceStepAll {SVC_TYPE_RUNTASK}]
   \<and> sys (plugin_run_hook sample_plugin_env 4 0 static_pstate)
       = [(''alpha'', 7), (''charlie'', 9), (''hook/mount/all'', 0)]
   \<and> plugin_register 1 sample_dynamic_env (Some 40) dynamic_pstate = Inr (0, delta_pstate)
   \<and> plugins delta_pstate = [30, 40]
   \<and> registered (pcalls delta_pstate) = [30, 40]
   \<and> pcalls (plugin_run_hook sample_dynamic_env 4 0 delta_pstate)
       = [Dlopen ''/lib/finit/plugins/charlie.so'', Registered 30, Registered 40,
          HookCb 30 4 9, HookCb 40 4 6,
          CondSetOneshot ''hook/mount/all'', ServiceStepAll {SVC_TYPE_RUNTASK}]
   \<and> sys (plugin_run_hook sample_dynamic_env 4 0 delta_pstate)
       = [(''charlie'', 9), (''delta'', 6), (''hook/mount/all'', 0)]
   \<and> card (loadable sample_dynamic_env dynamic_pstate) = 1"
proof -
  let ?E = sample_plugin_env and ?D = sample_dynamic_env
  let ?ps = "[10, 20, 30] :: nat list"
  note s = run_hook_registration_order [of ?E 4 0 empty_pstate 0 None 0 empty_pstate 10
      "''alpha''" ?ps static_pstate]
  note d = run_hook_registration_order [of ?D 4 0 delta_pstate 1 "Some 40" 0 delta_pstate 40
      "''delta''" "[]" delta_pstate]
  note d0 = run_hook_registration_order [of ?D 4 0 dynamic_pstate 1 "Some 40" 0 delta_pstate 40
      "''delta''" "[]" dynamic_pstate]
  have reg: "plugin_register_all 0 ?E ?ps empty_pstate = Inr static_pstate"
    by (rule sample_static_registration)
  have hyp: "ENABLE_STATIC ?E \<and> plugins empty_pstate = [] \<and> plugpath empty_pstate = None
        \<and> distinct (map (registered_name ?E empty_pstate) ?ps)
        \<and> Freed \<notin> set (map (registered_name ?E empty_pstate) ?ps)"
    by (simp add: plugin_sample_defs registered_name_def default_name_def trim_ext_def cut_at_def)
  have flt: "filter (\<lambda>p. hook_cb (plugin_hook (objs empty_pstate p) 4) \<noteq> None) ?ps = [10, 30]"
    by (simp add: plugin_sample_defs)
  have vals: "hook_arg_of empty_pstate 4 0 10 = 7" "hook_arg_of empty_pstate 4 0 30 = 9"
    "HOOK_MOUNT_ERROR ?E \<le> 4" "hook_cond ?E 4 = ''hook/mount/all''" "pcalls empty_pstate = []"
    by (simp_all add: plugin_sample_defs hook_arg_of_def)
  have cbs: "step_all ?E {SVC_TYPE_RUNTASK}
       (cond_set_oneshot ?E ''hook/mount/all'' (run_callbacks empty_pstate 4 0 ?ps (sys empty_pstate)))
     = [(''alpha'', 7), (''charlie'', 9), (''hook/mount/all'', 0)]"
    by (simp add: plugin_sample_defs run_callbacks_def hook_arg_of_def)
  from s hyp obtain v where
    v: "plugin_register_all 0 ?E ?ps empty_pstate = Inr v" "plugins v = ?ps"
       "pcalls (plugin_run_hook ?E 4 0 v) =
               pcalls empty_pstate @ map Registered ?ps
               @ map (\<lambda>p. HookCb p 4 (hook_arg_of empty_pstate 4 0 p))
                   (filter (\<lambda>p. hook_cb (plugin_hook (objs empty_pstate p) 4) \<noteq> None) ?ps)
               @ (if HOOK_MOUNT_ERROR ?E \<le> 4 then [CondSetOneshot (hook_cond ?E 4)] else [])
               @ [ServiceStepAll {SVC_TYPE_RUNTASK}]"
       "sys (plugin_run_hook ?E 4 0 v) =
               step_all ?E {SVC_TYPE_RUNTASK}
                 ((if HOOK_MOUNT_ERROR ?E \<le> 4 then cond_set_oneshot ?E (hook_cond ?E 4) else id)
                    (run_callbacks empty_pstate 4 0 ?ps (sys empty_pstate)))"
    by blast
  from v(1) reg have vs: "v = static_pstate" by simp
  have a1: "plugins static_pstate = [10, 20, 30]" using v(2) vs by simp
  have a2: "pcalls (plugin_run_hook ?E 4 0 static_pstate)
       = [Registered 10, Registered 20, Registered 30, HookCb 10 4 7, HookCb 30 4 9,
          CondSetOneshot ''hook/mount/all'', ServiceStepAll {SVC_TYPE_RUNTASK}]"
    using v(3) unfolding vs flt by (simp add: vals)
  have a3: "sys (plugin_run_hook ?E 4 0 static_pstate)
       = [(''alpha'', 7), (''charlie'', 9), (''hook/mount/all'', 0)]"
    using v(4) cbs unfolding vs by (simp add: vals)
  have dreg: "plugin_register 1 ?D (Some 40) dynamic_pstate = Inr (0, delta_pstate)"
    by (rule sample_dynamic_registration)
  have fin: "finite {f. dl_ctors ?D f \<noteq> None}"
    by (simp add: plugin_sample_defs)
  have ld: "loadable ?D dynamic_pstate = {''/lib/finit/plugins/charlie.so''}"
    by (auto simp: loadable_def plugin_sample_defs)
  then have cd: "card (loadable ?D dynamic_pstate) = 1" by simp
  from d0 dreg obtain tr where
    tr: "pcalls delta_pstate = pcalls dynamic_pstate @ tr"
        "plugins delta_pstate = plugins dynamic_pstate @ registered tr"
    by blast
  have dp: "pcalls dynamic_pstate = []" "plugins dynamic_pstate = []"
    by (simp_all add: plugin_sample_defs)
  have b1: "plugins delta_pstate = [30, 40]" by (simp add: plugin_sample_defs)
  have b2: "registered (pcalls delta_pstate) = [30, 40]"
    using tr b1 by (simp add: dp)
  have dflt: "filter (\<lambda>p. hook_cb (plugin_hook (objs delta_pstate p) 4) \<noteq> None)
                (plugins delta_pstate) = [30, 40]"
    by (simp add: plugin_sample_defs)
  have dvals: "hook_arg_of delta_pstate 4 0 30 = 9" "hook_arg_of delta_pstate 4 0 40 = 6"
    "HOOK_MOUNT_ERROR ?D \<le> 4" "hook_cond ?D 4 = ''hook/mount/all''"
    "pcalls delta_pstate
       = [Dlopen ''/lib/finit/plugins/charlie.so'', Registered 30, Registered 40]"
    by (simp_all add: plugin_sample_defs hook_arg_of_def)
  have dcbs: "step_all ?D {SVC_TYPE_RUNTASK}
       (cond_set_oneshot ?D ''hook/mount/all''
          (run_callbacks delta_pstate 4 0 (plugins delta_pstate) (sys delta_pstate)))
     = [(''charlie'', 9), (''delta'', 6), (''hook/mount/all'', 0)]"
    by (simp add: plugin_sample_defs run_callbacks_def hook_arg_of_def)
  have b3: "pcalls (plugin_run_hook ?D 4 0 delta_pstate)
       = [Dlopen ''/lib/finit/plugins/charlie.so'', Registered 30, Registered 40,
          HookCb 30 4 9, HookCb 40 4 6,
          CondSetOneshot ''hook/mount/all'', ServiceStepAll {SVC_TYPE_RUNTASK}]"
    using d [THEN conjunct1] unfolding dflt by (simp add: dvals)
  have b4: "sys (plugin_run_hook ?D 4 0 delta_pstate)
       = [(''charlie'', 9), (''delta'', 6), (''hook/mount/all'', 0)]"
    using d [THEN conjunct2, THEN conjunct1] dcbs by (simp add: dvals)
  from reg a1 a2 a3 dreg b1 b2 b3 b4 cd show ?thesis by blast
qed

subsection \<open>TTY handling\<close>

text \<open>
  Claim C8.  For a TTY record with a nonzero pid, \<^verbatim>\<open>tty_stop\<close> makes two system calls,
  \<^verbatim>\<open>kill\<close> with SIGKILL on that pid and then \<^verbatim>\<open>waitpid\<close> on it, and sets the pid to 0; the
  one signal sent is SIGKILL.  For a record whose pid is 0 it makes no call and leaves the
  record as it is.
\<close>

theorem tty_stop_sigkill:
  "(tty_pid tty \<noteq> 0 \<longrightarrow>
      tty_stop tty cs = (tty\<lparr>tty_pid := 0\<rparr>, cs @ [Kill (tty_pid tty) SIGKILL, Waitpid (tty_pid tty)])
      \<and> tty_pid (fst (tty_stop tty cs)) = 0
      \<and> filter (\<lambda>c. case c of Kill p sg \<Rightarrow> True | _ \<Rightarrow> False)
           (drop (length cs) (snd (tty_stop tty cs))) = [Kill (tty_pid tty) SIGKILL])
   \<and> (tty_pid tty = 0 \<longrightarrow> tty_stop tty cs = (tty, cs))"
  by (simp add: tty_stop_def)

theorem tty_stop_sigkill_witness:
  "tty_pid (tty_data node_ttyS0) = 100
   \<and> snd (tty_stop (tty_data node_ttyS0) []) = [Kill 100 SIGKILL, Waitpid 100]
   \<and> tty_pid (fst (tty_stop (tty_data node_ttyS0) [])) = 0
   \<and> tty_stop (fst (tty_stop (tty_data node_ttyS0) [])) [Kill 100 SIGKILL, Waitpid 100]
       = (fst (tty_stop (tty_data node_ttyS0) []), [Kill 100 SIGKILL, Waitpid 100])"
proof -
  have p: "tty_pid (tty_data node_ttyS0) = 100" by (simp add: node_ttyS0_def)
  then have nz: "tty_pid (tty_data node_ttyS0) \<noteq> 0" by simp
  from tty_stop_sigkill [of "tty_data node_ttyS0" "[]"] nz
  have a: "tty_stop (tty_data node_ttyS0) []
      = ((tty_data node_ttyS0)\<lparr>tty_pid := 0\<rparr>,
         [] @ [Kill (tty_pid (tty_data node_ttyS0)) SIGKILL, Waitpid (tty_pid (tty_data node_ttyS0))])"
    by blast
  have z: "tty_pid (fst (tty_stop (tty_data node_ttyS0) [])) = 0" using a by simp
  from tty_stop_sigkill [of "fst (tty_stop (tty_data node_ttyS0) [])" "[Kill 100 SIGKILL, Waitpid 100]"] z
  have b: "tty_stop (fst (tty_stop (tty_data node_ttyS0) [])) [Kill 100 SIGKILL, Waitpid 100]
       = (fst (tty_stop (tty_data node_ttyS0) []), [Kill 100 SIGKILL, Waitpid 100])"
    by blast
  from p a z b show ?thesis by simp
qed

lemma external_getty_keeps:
  "tty_name (external_getty cmd args d) = tty_name d"
  "tty_pid (external_getty cmd args d) = tty_pid d"
  "tty_runlevels (external_getty cmd args d) = tty_runlevels d"
  by (simp_all add: external_getty_def Let_def)

lemma tty_fill_fields:
  "tty_name (tty_data (tty_fill E l rlimit cfile dev entry)) = dev"
  "tty_pid (tty_data (tty_fill E l rlimit cfile dev entry)) = tty_pid (tty_data entry)"
  "tty_dirty (tty_fill E l rlimit cfile dev entry)
     = (case cfile of Some f \<Rightarrow> if conf_changed E f then 1 else 0 | None \<Rightarrow> 0)"
  "tty_runlevels (tty_data (tty_fill E l rlimit cfile dev entry))
     = conf_parse_runlevels E (p_runlevels (tty_scan E l))"
  by (simp_all add: tty_fill_def Let_def external_getty_keeps split: prod.splits option.splits)

lemma find_first_Some_iff_ex: "find_first P xs \<noteq> None \<longleftrightarrow> (\<exists>x\<in>set xs. P x)"
  by (induction xs) auto

lemma tty_find_Some: "tty_find w dev = Some i \<Longrightarrow> i < length (tty_list w) \<and> tty_name (tty_data (tty_list w ! i)) = dev"
  unfolding tty_find_def by (drule find_first_Some) simp

lemma tty_find_None: "tty_find w dev = None \<Longrightarrow> dev \<notin> set (map (\<lambda>n. tty_name (tty_data n)) (tty_list w))"
  unfolding tty_find_def by (auto simp: find_first_None_iff)

lemma errno_nonzero: "EINVAL \<noteq> 0" "ENOMEM \<noteq> 0"
  by (simp_all add: EINVAL_def ENOMEM_def)

lemma tty_register_cases:
  assumes "tty_register E line rlimit cfile w = (rc, w')"
  shows "(rc \<noteq> 0 \<and> w' = w)
       \<or> (rc = 0 \<and> (\<exists>l dev. line = Some l \<and> canonicalize E (p_dev (tty_scan E l)) = Some dev
             \<and> ((\<exists>i. tty_find w dev = Some i
                     \<and> w' = w\<lparr>tty_list := (tty_list w)[i := tty_fill E l rlimit cfile dev (tty_list w ! i)]\<rparr>)
                \<or> (tty_find w dev = None \<and> calloc_ok E
                     \<and> w' = w\<lparr>tty_list := tty_fill E l rlimit cfile dev (calloc_node E) # tty_list w\<rparr>))))"
  using assms
  by (auto simp: tty_register_def errno_nonzero split: option.splits if_splits)

lemma distinct_names_update:
  assumes "distinct (map f xs)" "i < length xs" "f e = f (xs ! i)"
  shows "distinct (map f (xs[i := e]))"
proof -
  have "map f (xs[i := e]) = (map f xs)[i := f (xs ! i)]"
    using assms(3) by (simp add: map_update)
  also have "\<dots> = map f xs" using assms(2) by (simp add: list_update_same_conv)
  finally show ?thesis using assms(1) by simp
qed

lemma tty_register_distinct:
  assumes "distinct (map (\<lambda>n. tty_name (tty_data n)) (tty_list w))"
  shows "distinct (map (\<lambda>n. tty_name (tty_data n)) (tty_list (snd (tty_register E line rlimit cfile w))))"
proof -
  obtain rc w' where r: "tty_register E line rlimit cfile w = (rc, w')" by (cases "tty_register E line rlimit cfile w")
  from tty_register_cases [OF r] show ?thesis
  proof (elim disjE conjE exE)
    assume "w' = w" then show ?thesis using r assms by simp
  next
    fix l dev i
    assume f: "tty_find w dev = Some i"
      and w': "w' = w\<lparr>tty_list := (tty_list w)[i := tty_fill E l rlimit cfile dev (tty_list w ! i)]\<rparr>"
    from tty_find_Some [OF f] have "i < length (tty_list w)" "tty_name (tty_data (tty_list w ! i)) = dev"
      by simp_all
    then have "distinct (map (\<lambda>n. tty_name (tty_data n)) ((tty_list w)[i := tty_fill E l rlimit cfile dev (tty_list w ! i)]))"
      using assms by (intro distinct_names_update) (simp_all add: tty_fill_fields)
    then show ?thesis using r w' by simp
  next
    fix l dev
    assume f: "tty_find w dev = None"
      and w': "w' = w\<lparr>tty_list := tty_fill E l rlimit cfile dev (calloc_node E) # tty_list w\<rparr>"
    from tty_find_None [OF f] assms show ?thesis using r w' by (simp add: tty_fill_fields)
  qed
qed

lemma tty_register_num:
  assumes "tty_register E line rlimit cfile w = (rc, w')"
  shows "tty_num w' = (if rc = 0 \<and> (\<forall>l dev. line = Some l \<longrightarrow> canonicalize E (p_dev (tty_scan E l)) = Some dev \<longrightarrow> tty_find w dev = None)
                       then Suc (tty_num w) else tty_num w)"
  using tty_register_cases [OF assms]
  by (auto simp: tty_num_def)

lemma tty_register_twice_num:
  "tty_num (snd (tty_register E line rlimit cfile (snd (tty_register E line rlimit cfile w))))
     = tty_num (snd (tty_register E line rlimit cfile w))"
proof -
  obtain rc w1 where r: "tty_register E line rlimit cfile w = (rc, w1)" by (cases "tty_register E line rlimit cfile w")
  obtain rc2 w2 where r2: "tty_register E line rlimit cfile w1 = (rc2, w2)" by (cases "tty_register E line rlimit cfile w1")
  have "tty_num w2 = tty_num w1"
  proof (cases "rc = 0")
    case False
    with tty_register_cases [OF r] have "w1 = w" by auto
    with r r2 have "w2 = w1" by simp
    then show ?thesis by simp
  next
    case True
    with tty_register_cases [OF r] obtain l dev where
      ld: "line = Some l" "canonicalize E (p_dev (tty_scan E l)) = Some dev"
      and cs: "(\<exists>i. tty_find w dev = Some i
                     \<and> w1 = w\<lparr>tty_list := (tty_list w)[i := tty_fill E l rlimit cfile dev (tty_list w ! i)]\<rparr>)
                \<or> (tty_find w dev = None \<and> calloc_ok E
                     \<and> w1 = w\<lparr>tty_list := tty_fill E l rlimit cfile dev (calloc_node E) # tty_list w\<rparr>)"
      by auto
    have "\<exists>x\<in>set (tty_list w1). tty_name (tty_data x) = dev"
    proof -
      from cs show ?thesis
      proof (elim disjE exE conjE)
        fix i assume f: "tty_find w dev = Some i"
          and w1: "w1 = w\<lparr>tty_list := (tty_list w)[i := tty_fill E l rlimit cfile dev (tty_list w ! i)]\<rparr>"
        from tty_find_Some [OF f] have "i < length (tty_list w)" by simp
        then have "tty_fill E l rlimit cfile dev (tty_list w ! i) \<in> set (tty_list w1)"
          using w1 by (simp add: set_update_memI)
        then show ?thesis by (auto simp: tty_fill_fields intro!: bexI)
      next
        assume "w1 = w\<lparr>tty_list := tty_fill E l rlimit cfile dev (calloc_node E) # tty_list w\<rparr>"
        then show ?thesis by (simp add: tty_fill_fields)
      qed
    qed
    then have "tty_find w1 dev \<noteq> None"
      unfolding tty_find_def using find_first_Some_iff_ex [of "\<lambda>entry. tty_name (tty_data entry) = dev" "tty_list w1"]
      by blast
    then obtain j where j: "tty_find w1 dev = Some j" by auto
    with r2 ld have "w2 = w1\<lparr>tty_list := (tty_list w1)[j := tty_fill E l rlimit cfile dev (tty_list w1 ! j)]\<rparr>"
      by (simp add: tty_register_def)
    then show ?thesis by (simp add: tty_num_def)
  qed
  with r r2 show ?thesis by simp
qed


lemma tty_stop_name: "tty_name (fst (tty_stop t cs)) = tty_name t"
  by (simp add: tty_stop_def)

lemma tty_start_name: "tty_name (fst (tty_start E t cs)) = tty_name t"
  by (simp add: tty_start_def split: option.splits)

lemma tty_start_running: "tty_pid t \<noteq> 0 \<Longrightarrow> tty_start E t cs = (t, cs)"
  by (simp add: tty_start_def)

lemma tty_action_name: "tty_name (tty_data (fst (tty_action E rl n cs))) = tty_name (tty_data n)"
  by (simp add: tty_action_def Let_def split_beta tty_stop_name tty_start_name)

lemma tty_action_running_enabled:
  "tty_pid (tty_data n) \<noteq> 0 \<Longrightarrow> tty_enabled rl (Some (tty_data n)) \<Longrightarrow> tty_action E rl n cs = (n, cs)"
  by (simp add: tty_action_def tty_start_running)

lemma sweep_nodes_all_clean:
  "\<forall>n\<in>set l. tty_dirty n = 0 \<Longrightarrow> sweep_nodes l cs = (l, cs)"
  by (induction l arbitrary: cs) simp_all

lemma sweep_nodes_keeps_clean:
  "n \<in> set l \<Longrightarrow> tty_dirty n = 0 \<Longrightarrow> n \<in> set (fst (sweep_nodes l cs))"
proof (induction l arbitrary: cs)
  case Nil
  then show ?case by simp
next
  case (Cons a l)
  then show ?case
    by (auto simp: Let_def split_beta)
qed

lemma sweep_nodes_subseq:
  "subseq (map (\<lambda>n. tty_name (tty_data n)) (fst (sweep_nodes l cs))) (map (\<lambda>n. tty_name (tty_data n)) l)"
proof (induction l arbitrary: cs)
  case Nil
  then show ?case by simp
next
  case (Cons a l)
  show ?case
  proof (cases "tty_dirty a = 0")
    case True
    then show ?thesis using Cons.IH [of cs] by (simp add: Let_def split_beta)
  next
    case False
    obtain d cs1 where st: "tty_stop (tty_data a) cs = (d, cs1)" by (cases "tty_stop (tty_data a) cs")
    then have dn: "tty_name d = tty_name (tty_data a)" using tty_stop_name [of "tty_data a" cs] by simp
    show ?thesis using False st dn Cons.IH [of cs1]
      by (auto simp: Let_def split_beta)
  qed
qed

lemma sweep_nodes_members:
  "m \<in> set (fst (sweep_nodes l cs)) \<Longrightarrow> (m \<in> set l \<and> tty_dirty m = 0) \<or> tty_pid (tty_data m) = 0"
proof (induction l arbitrary: cs)
  case Nil
  then show ?case by simp
next
  case (Cons a l)
  show ?case
  proof (cases "tty_dirty a = 0")
    case True
    then show ?thesis using Cons.prems Cons.IH [of cs]
      by (auto simp: Let_def split_beta)
  next
    case False
    obtain d cs1 where st: "tty_stop (tty_data a) cs = (d, cs1)" by (cases "tty_stop (tty_data a) cs")
    then have dp: "tty_pid d = 0" by (auto simp: tty_stop_def split: if_splits)
    show ?thesis using False st dp Cons.prems Cons.IH [of cs1]
      by (auto simp: Let_def split_beta split: if_splits)
  qed
qed

lemma sweep_nodes_calls:
  "\<exists>new. snd (sweep_nodes l cs) = cs @ new
     \<and> (\<forall>c\<in>set new. \<forall>p sg. c = Kill p sg \<longrightarrow>
           sg = SIGKILL \<and> (\<exists>m\<in>set l. tty_pid (tty_data m) = p \<and> p \<noteq> 0 \<and> tty_dirty m \<noteq> 0))"
proof (induction l arbitrary: cs)
  case Nil
  then show ?case by simp
next
  case (Cons a l)
  show ?case
  proof (cases "tty_dirty a = 0")
    case True
    from Cons.IH [of cs] obtain new where
      "snd (sweep_nodes l cs) = cs @ new"
      "\<forall>c\<in>set new. \<forall>p sg. c = Kill p sg \<longrightarrow>
           sg = SIGKILL \<and> (\<exists>m\<in>set l. tty_pid (tty_data m) = p \<and> p \<noteq> 0 \<and> tty_dirty m \<noteq> 0)"
      by blast
    then show ?thesis using True
      by (intro exI [of _ new]) (auto simp: Let_def split_beta)
  next
    case False
    obtain d cs1 where st: "tty_stop (tty_data a) cs = (d, cs1)" by (cases "tty_stop (tty_data a) cs")
    define a1 where "a1 = (if tty_pid (tty_data a) = 0 then []
        else [Kill (tty_pid (tty_data a)) SIGKILL, Waitpid (tty_pid (tty_data a))])"
    have cs1: "cs1 = cs @ a1" using st by (auto simp: tty_stop_def a1_def split: if_splits)
    from Cons.IH [of cs1] obtain new where
      new: "snd (sweep_nodes l cs1) = cs1 @ new"
      "\<forall>c\<in>set new. \<forall>p sg. c = Kill p sg \<longrightarrow>
           sg = SIGKILL \<and> (\<exists>m\<in>set l. tty_pid (tty_data m) = p \<and> p \<noteq> 0 \<and> tty_dirty m \<noteq> 0)"
      by blast
    have "snd (sweep_nodes (a # l) cs) = cs @ (a1 @ new)"
      using False st new(1) cs1 by (auto simp: Let_def split_beta)
    moreover have "\<forall>c\<in>set (a1 @ new). \<forall>p sg. c = Kill p sg \<longrightarrow>
           sg = SIGKILL \<and> (\<exists>m\<in>set (a # l). tty_pid (tty_data m) = p \<and> p \<noteq> 0 \<and> tty_dirty m \<noteq> 0)"
      using new(2) False by (auto simp: a1_def)
    ultimately show ?thesis by blast
  qed
qed

lemma reload_nodes_names:
  "map (\<lambda>n. tty_name (tty_data n)) (fst (reload_nodes E rl l cs)) = map (\<lambda>n. tty_name (tty_data n)) l"
proof (induction l arbitrary: cs)
  case Nil
  then show ?case by simp
next
  case (Cons a l)
  obtain a1 cs1 where ac: "tty_action E rl a cs = (a1, cs1)" by (cases "tty_action E rl a cs")
  then have "tty_name (tty_data a1) = tty_name (tty_data a)" using tty_action_name [of E rl a cs] by simp
  then show ?case using ac Cons.IH [of cs1] by (simp add: Let_def split_beta)
qed

lemma reload_nodes_keeps:
  "n \<in> set l \<Longrightarrow> tty_dirty n = 0 \<Longrightarrow> tty_pid (tty_data n) \<noteq> 0 \<Longrightarrow> tty_enabled rl (Some (tty_data n))
    \<Longrightarrow> n \<in> set (fst (reload_nodes E rl l cs))"
proof (induction l arbitrary: cs)
  case Nil
  then show ?case by simp
next
  case (Cons a l)
  obtain a1 cs1 where ac: "tty_action E rl a cs = (a1, cs1)" by (cases "tty_action E rl a cs")
  show ?case
  proof (cases "n = a")
    case True
    then have "tty_action E rl a cs = (a, cs)" using Cons.prems by (simp add: tty_action_running_enabled)
    with ac have "a1 = a" by simp
    moreover have "a\<lparr>tty_dirty := 0\<rparr> = a" using True Cons.prems(2) by simp
    ultimately show ?thesis using ac True by (simp add: Let_def split_beta)
  next
    case False
    then have "n \<in> set l" using Cons.prems(1) by simp
    from Cons.IH [OF this Cons.prems(2,3,4), of cs1] show ?thesis
      using ac by (simp add: Let_def split_beta)
  qed
qed

lemma tty_action_calls:
  "\<exists>new. snd (tty_action E rl a cs) = cs @ new
     \<and> (\<forall>c\<in>set new. \<forall>p sg. c = Kill p sg \<longrightarrow>
           sg = SIGKILL \<and> tty_pid (tty_data a) = p \<and> p \<noteq> 0 \<and> \<not> tty_enabled rl (Some (tty_data a)))"
  by (auto simp: tty_action_def tty_stop_def tty_start_def Let_def split: option.splits)

lemma reload_nodes_calls:
  "\<exists>new. snd (reload_nodes E rl l cs) = cs @ new
     \<and> (\<forall>c\<in>set new. \<forall>p sg. c = Kill p sg \<longrightarrow>
           sg = SIGKILL \<and> (\<exists>m\<in>set l. tty_pid (tty_data m) = p \<and> p \<noteq> 0
                                 \<and> \<not> tty_enabled rl (Some (tty_data m))))"
proof (induction l arbitrary: cs)
  case Nil
  then show ?case by simp
next
  case (Cons a l)
  obtain a1 cs1 where ac: "tty_action E rl a cs = (a1, cs1)" by (cases "tty_action E rl a cs")
  from tty_action_calls [of E rl a cs] ac obtain n1 where
    n1: "cs1 = cs @ n1"
      "\<forall>c\<in>set n1. \<forall>p sg. c = Kill p sg \<longrightarrow>
           sg = SIGKILL \<and> tty_pid (tty_data a) = p \<and> p \<noteq> 0 \<and> \<not> tty_enabled rl (Some (tty_data a))"
    by auto
  from Cons.IH [of cs1] obtain new where
    new: "snd (reload_nodes E rl l cs1) = cs1 @ new"
      "\<forall>c\<in>set new. \<forall>p sg. c = Kill p sg \<longrightarrow>
           sg = SIGKILL \<and> (\<exists>m\<in>set l. tty_pid (tty_data m) = p \<and> p \<noteq> 0
                                 \<and> \<not> tty_enabled rl (Some (tty_data m)))"
    by blast
  have "snd (reload_nodes E rl (a # l) cs) = cs @ (n1 @ new)"
    using ac n1(1) new(1) by (simp add: Let_def split_beta)
  moreover have "\<forall>c\<in>set (n1 @ new). \<forall>p sg. c = Kill p sg \<longrightarrow>
           sg = SIGKILL \<and> (\<exists>m\<in>set (a # l). tty_pid (tty_data m) = p \<and> p \<noteq> 0
                                 \<and> \<not> tty_enabled rl (Some (tty_data m)))"
    using n1(2) new(2) by auto
  ultimately show ?case by blast
qed

lemma tty_start_runlevels: "tty_runlevels (fst (tty_start E t cs)) = tty_runlevels t"
  by (simp add: tty_start_def split: option.splits)

lemma tty_action_running_is_enabled:
  "tty_pid (tty_data (fst (tty_action E rl a cs))) \<noteq> 0
    \<Longrightarrow> tty_enabled rl (Some (tty_data (fst (tty_action E rl a cs))))"
  by (cases "tty_enabled rl (Some (tty_data a))")
     (auto simp: tty_action_def tty_enabled_def tty_start_runlevels tty_stop_def split_beta
        split: if_splits)

lemma reload_nodes_result:
  "n \<in> set (fst (reload_nodes E rl l cs)) \<Longrightarrow>
     tty_dirty n = 0 \<and> (tty_pid (tty_data n) \<noteq> 0 \<longrightarrow> tty_enabled rl (Some (tty_data n)))"
proof (induction l arbitrary: cs)
  case Nil
  then show ?case by simp
next
  case (Cons a l)
  let ?a1 = "fst (tty_action E rl a cs)" and ?cs1 = "snd (tty_action E rl a cs)"
  from Cons.prems have "n = ?a1\<lparr>tty_dirty := 0\<rparr> \<or> n \<in> set (fst (reload_nodes E rl l ?cs1))"
    by (simp add: Let_def split_beta)
  then show ?case
  proof
    assume "n = ?a1\<lparr>tty_dirty := 0\<rparr>"
    then show ?thesis using tty_action_running_is_enabled [of E rl a cs] by simp
  next
    assume "n \<in> set (fst (reload_nodes E rl l ?cs1))"
    then show ?thesis by (rule Cons.IH)
  qed
qed

lemma tty_reload_all:
  "tty_reload E None w =
     w\<lparr>tty_list := fst (reload_nodes E (runlevel w) (fst (sweep_nodes (tty_list w) (tcalls w)))
                          (snd (sweep_nodes (tty_list w) (tcalls w)))),
       tcalls := snd (reload_nodes E (runlevel w) (fst (sweep_nodes (tty_list w) (tcalls w)))
                          (snd (sweep_nodes (tty_list w) (tcalls w))))\<rparr>"
  by (simp add: tty_reload_def tty_sweep_def Let_def split_beta)

lemma tty_reload_runlevel: "runlevel (tty_reload E dev w) = runlevel w"
  by (cases dev) (simp_all add: tty_reload_all, simp add: tty_reload_def Let_def split_beta split: option.splits)

lemma tty_reload_keeps:
  assumes "n \<in> set (tty_list w)" "tty_dirty n = 0" "tty_pid (tty_data n) \<noteq> 0"
    "tty_enabled (runlevel w) (Some (tty_data n))"
  shows "n \<in> set (tty_list (tty_reload E None w))"
  unfolding tty_reload_all
  using reload_nodes_keeps [OF sweep_nodes_keeps_clean [OF assms(1,2)] assms(2,3,4)]
  by simp

lemma tty_reload_calls:
  "\<exists>new. tcalls (tty_reload E None w) = tcalls w @ new
     \<and> (\<forall>c\<in>set new. \<forall>p sg. c = Kill p sg \<longrightarrow>
           sg = SIGKILL \<and> (\<exists>m\<in>set (tty_list w). tty_pid (tty_data m) = p \<and> p \<noteq> 0
               \<and> (tty_dirty m \<noteq> 0 \<or> \<not> tty_enabled (runlevel w) (Some (tty_data m)))))"
proof -
  let ?sw = "sweep_nodes (tty_list w) (tcalls w)"
  from sweep_nodes_calls [of "tty_list w" "tcalls w"] obtain n1 where
    n1: "snd ?sw = tcalls w @ n1"
      "\<forall>c\<in>set n1. \<forall>p sg. c = Kill p sg \<longrightarrow>
           sg = SIGKILL \<and> (\<exists>m\<in>set (tty_list w). tty_pid (tty_data m) = p \<and> p \<noteq> 0 \<and> tty_dirty m \<noteq> 0)"
    by blast
  from reload_nodes_calls [of E "runlevel w" "fst ?sw" "snd ?sw"] obtain n2 where
    n2: "snd (reload_nodes E (runlevel w) (fst ?sw) (snd ?sw)) = snd ?sw @ n2"
      "\<forall>c\<in>set n2. \<forall>p sg. c = Kill p sg \<longrightarrow>
           sg = SIGKILL \<and> (\<exists>m\<in>set (fst ?sw). tty_pid (tty_data m) = p \<and> p \<noteq> 0
                                 \<and> \<not> tty_enabled (runlevel w) (Some (tty_data m)))"
    by blast
  have k2: "\<forall>c\<in>set n2. \<forall>p sg. c = Kill p sg \<longrightarrow>
           sg = SIGKILL \<and> (\<exists>m\<in>set (tty_list w). tty_pid (tty_data m) = p \<and> p \<noteq> 0
               \<and> (tty_dirty m \<noteq> 0 \<or> \<not> tty_enabled (runlevel w) (Some (tty_data m))))"
  proof (intro ballI allI impI)
    fix c p sg assume c: "c \<in> set n2" "c = Kill p sg"
    with n2(2) obtain m where m: "sg = SIGKILL" "m \<in> set (fst ?sw)" "tty_pid (tty_data m) = p" "p \<noteq> 0"
      "\<not> tty_enabled (runlevel w) (Some (tty_data m))" by blast
    from sweep_nodes_members [OF m(2)] m(3,4) have "m \<in> set (tty_list w)" by auto
    with m show "sg = SIGKILL \<and> (\<exists>m\<in>set (tty_list w). tty_pid (tty_data m) = p \<and> p \<noteq> 0
               \<and> (tty_dirty m \<noteq> 0 \<or> \<not> tty_enabled (runlevel w) (Some (tty_data m))))" by blast
  qed
  have "tcalls (tty_reload E None w) = tcalls w @ (n1 @ n2)"
    unfolding tty_reload_all using n1(1) n2(1) by simp
  moreover have "\<forall>c\<in>set (n1 @ n2). \<forall>p sg. c = Kill p sg \<longrightarrow>
           sg = SIGKILL \<and> (\<exists>m\<in>set (tty_list w). tty_pid (tty_data m) = p \<and> p \<noteq> 0
               \<and> (tty_dirty m \<noteq> 0 \<or> \<not> tty_enabled (runlevel w) (Some (tty_data m))))"
  proof (intro ballI allI impI)
    fix c p sg assume c: "c \<in> set (n1 @ n2)" "c = Kill p sg"
    then consider "c \<in> set n1" | "c \<in> set n2" by auto
    then show "sg = SIGKILL \<and> (\<exists>m\<in>set (tty_list w). tty_pid (tty_data m) = p \<and> p \<noteq> 0
               \<and> (tty_dirty m \<noteq> 0 \<or> \<not> tty_enabled (runlevel w) (Some (tty_data m))))"
    proof cases
      case 1
      with n1(2) c(2) show ?thesis by blast
    next
      case 2
      with k2 c(2) show ?thesis by blast
    qed
  qed
  ultimately show ?thesis by blast
qed


lemma distinct_remove_nth:
  assumes "distinct xs"
  shows "distinct (take i xs @ drop (Suc i) xs)"
proof (cases "i < length xs")
  case True
  then have "xs = take i xs @ xs ! i # drop (Suc i) xs" by (rule id_take_nth_drop)
  then have "distinct (take i xs @ xs ! i # drop (Suc i) xs)" using assms by simp
  then show ?thesis by simp
next
  case False
  then show ?thesis using assms by simp
qed

lemma subseq_distinct_names: "subseq xs ys \<Longrightarrow> distinct ys \<Longrightarrow> distinct xs"
  by (induction rule: list_emb.induct) (auto dest: list_emb_set)

lemma tty_unregister_distinct:
  assumes d: "distinct (map (\<lambda>n. tty_name (tty_data n)) (tty_list w))"
  shows "distinct (map (\<lambda>n. tty_name (tty_data n)) (tty_list (snd (tty_unregister tty w))))"
proof (cases tty)
  case None
  then show ?thesis using d by (simp add: tty_unregister_def)
next
  case (Some i)
  have "map (\<lambda>n. tty_name (tty_data n)) (take i (tty_list w) @ drop (Suc i) (tty_list w))
      = take i (map (\<lambda>n. tty_name (tty_data n)) (tty_list w)) @ drop (Suc i) (map (\<lambda>n. tty_name (tty_data n)) (tty_list w))"
    by (simp add: take_map drop_map)
  then show ?thesis
    using Some distinct_remove_nth [OF d, of i] by (simp add: tty_unregister_def)
qed

lemma tty_sweep_list: "tty_list (tty_sweep w) = fst (sweep_nodes (tty_list w) (tcalls w))"
  by (simp add: tty_sweep_def split_beta)

lemma tty_sweep_distinct:
  "distinct (map (\<lambda>n. tty_name (tty_data n)) (tty_list w)) \<Longrightarrow> distinct (map (\<lambda>n. tty_name (tty_data n)) (tty_list (tty_sweep w)))"
  unfolding tty_sweep_list by (rule subseq_distinct_names [OF sweep_nodes_subseq])

lemma tty_mark_distinct:
  "distinct (map (\<lambda>n. tty_name (tty_data n)) (tty_list w)) \<Longrightarrow> distinct (map (\<lambda>n. tty_name (tty_data n)) (tty_list (tty_mark w)))"
  by (simp add: tty_mark_def comp_def)

lemma tty_reload_distinct:
  assumes "distinct (map (\<lambda>n. tty_name (tty_data n)) (tty_list w))"
  shows "distinct (map (\<lambda>n. tty_name (tty_data n)) (tty_list (tty_reload E dev w)))"
proof (cases dev)
  case None
  have "map (\<lambda>n. tty_name (tty_data n)) (tty_list (tty_reload E None w)) = map (\<lambda>n. tty_name (tty_data n)) (fst (sweep_nodes (tty_list w) (tcalls w)))"
    unfolding tty_reload_all by (simp add: reload_nodes_names)
  then show ?thesis
    using None subseq_distinct_names [OF sweep_nodes_subseq assms] by simp
next
  case (Some d)
  show ?thesis
  proof (cases "tty_find w d")
    case None
    then show ?thesis using Some assms by (simp add: tty_reload_def)
  next
    case (Some i)
    from tty_find_Some [OF Some] have i: "i < length (tty_list w)" by simp
    let ?e = "(fst (tty_action E (runlevel w) (tty_list w ! i) (tcalls w)))\<lparr>tty_dirty := 0\<rparr>"
    have "tty_name (tty_data ?e) = tty_name (tty_data (tty_list w ! i))" by (simp add: tty_action_name)
    then have "distinct (map (\<lambda>n. tty_name (tty_data n)) ((tty_list w)[i := ?e]))"
      using assms i by (intro distinct_names_update) simp_all
    then show ?thesis using Some \<open>dev = Some d\<close> by (simp add: tty_reload_def split_beta Let_def)
  qed
qed

lemma running_enabled_iff:
  "running_enabled w \<longleftrightarrow>
     (\<forall>n\<in>set (tty_list w). tty_pid (tty_data n) \<noteq> 0 \<longrightarrow> tty_enabled (runlevel w) (Some (tty_data n)))"
  by (auto simp: running_enabled_def list_all_iff)

lemma tty_reload_running_enabled: "running_enabled (tty_reload E None w)"
  unfolding running_enabled_iff tty_reload_runlevel
  by (auto simp: tty_reload_all dest: reload_nodes_result)

lemma tty_reload_keeps_running:
  assumes "running_enabled w" "n \<in> set (tty_list w)" "tty_dirty n = 0" "tty_pid (tty_data n) \<noteq> 0"
  shows "n \<in> set (tty_list (tty_reload E None w))"
  using assms by (intro tty_reload_keeps) (auto simp: running_enabled_iff)

lemma tty_mark_running_enabled: "running_enabled w \<Longrightarrow> running_enabled (tty_mark w)"
  by (auto simp: running_enabled_iff tty_mark_def)

lemma tty_sweep_running_enabled: "running_enabled w \<Longrightarrow> running_enabled (tty_sweep w)"
  unfolding running_enabled_iff
  by (auto simp: tty_sweep_def split_beta dest!: sweep_nodes_members)

lemma tty_unregister_running_enabled:
  "running_enabled w \<Longrightarrow> running_enabled (snd (tty_unregister tty w))"
  unfolding running_enabled_iff
  by (auto simp: tty_unregister_def split: option.splits dest: in_set_takeD in_set_dropD)

lemma calloc_node_pid: "tty_pid (tty_data (calloc_node E)) = 0"
  by (simp add: calloc_node_def)

lemma tty_register_running_enabled:
  assumes inv: "running_enabled w"
    and r: "tty_register E line rlimit cfile w = (rc, w')"
    and en: "\<forall>l. line = Some l \<longrightarrow> bit (conf_parse_runlevels E (p_runlevels (tty_scan E l))) (runlevel w)"
  shows "running_enabled w'"
proof -
  from tty_register_cases [OF r] consider "w' = w"
    | l dev i where "line = Some l" "tty_find w dev = Some i"
        "w' = w\<lparr>tty_list := (tty_list w)[i := tty_fill E l rlimit cfile dev (tty_list w ! i)]\<rparr>"
    | l dev where "line = Some l"
        "w' = w\<lparr>tty_list := tty_fill E l rlimit cfile dev (calloc_node E) # tty_list w\<rparr>"
    by blast
  then show ?thesis
  proof cases
    case 1
    then show ?thesis using inv by simp
  next
    case 2
    have e: "tty_enabled (runlevel w)
        (Some (tty_data (tty_fill E l rlimit cfile dev (tty_list w ! i))))"
      using en 2(1) by (simp add: tty_enabled_def tty_fill_fields)
    show ?thesis
      unfolding running_enabled_iff 2(3)
    proof (intro ballI impI)
      fix n assume n: "n \<in> set (tty_list (w\<lparr>tty_list := (tty_list w)
            [i := tty_fill E l rlimit cfile dev (tty_list w ! i)]\<rparr>))"
        and p: "tty_pid (tty_data n) \<noteq> 0"
      from n have "n = tty_fill E l rlimit cfile dev (tty_list w ! i) \<or> n \<in> set (tty_list w)"
        by (auto dest: set_update_subset_insert [THEN subsetD])
      then show "tty_enabled (runlevel (w\<lparr>tty_list := (tty_list w)
            [i := tty_fill E l rlimit cfile dev (tty_list w ! i)]\<rparr>)) (Some (tty_data n))"
        using e inv p by (auto simp: running_enabled_iff)
    qed
  next
    case 3
    show ?thesis
      unfolding 3(2) using inv
      by (auto simp: running_enabled_iff tty_fill_fields calloc_node_pid)
  qed
qed

lemma tty_reload_calls_running:
  assumes inv: "running_enabled w"
  shows "\<exists>new. tcalls (tty_reload E None w) = tcalls w @ new
     \<and> (\<forall>c\<in>set new. \<forall>p sg. c = Kill p sg \<longrightarrow>
           sg = SIGKILL \<and> (\<exists>m\<in>set (tty_list w). tty_pid (tty_data m) = p \<and> p \<noteq> 0
               \<and> tty_dirty m \<noteq> 0))"
proof -
  from tty_reload_calls [of E w] obtain new where
    new: "tcalls (tty_reload E None w) = tcalls w @ new"
      "\<forall>c\<in>set new. \<forall>p sg. c = Kill p sg \<longrightarrow>
           sg = SIGKILL \<and> (\<exists>m\<in>set (tty_list w). tty_pid (tty_data m) = p \<and> p \<noteq> 0
               \<and> (tty_dirty m \<noteq> 0 \<or> \<not> tty_enabled (runlevel w) (Some (tty_data m))))"
    by blast
  have "\<forall>c\<in>set new. \<forall>p sg. c = Kill p sg \<longrightarrow>
           sg = SIGKILL \<and> (\<exists>m\<in>set (tty_list w). tty_pid (tty_data m) = p \<and> p \<noteq> 0
               \<and> tty_dirty m \<noteq> 0)"
  proof (intro ballI allI impI)
    fix c p sg assume c: "c \<in> set new" "c = Kill p sg"
    with new(2) obtain m where m: "sg = SIGKILL" "m \<in> set (tty_list w)"
      "tty_pid (tty_data m) = p" "p \<noteq> 0"
      "tty_dirty m \<noteq> 0 \<or> \<not> tty_enabled (runlevel w) (Some (tty_data m))" by blast
    from inv m(2,3,4) have "tty_enabled (runlevel w) (Some (tty_data m))"
      by (auto simp: running_enabled_iff)
    with m show "sg = SIGKILL \<and> (\<exists>m\<in>set (tty_list w). tty_pid (tty_data m) = p \<and> p \<noteq> 0
               \<and> tty_dirty m \<noteq> 0)" by blast
  qed
  with new(1) show ?thesis by blast
qed

text \<open>
  Claim C9.  A TTY registered from a file that has not changed has its dirty mark 0, and a
  node that was already registered keeps its pid.  \<^verbatim>\<open>tty_sweep\<close> leaves a node whose mark
  is 0 as it is.  \<^verbatim>\<open>tty_start\<close> on a record with a nonzero pid returns with the record
  unchanged and no call made.

  A TTY runs only where it is enabled: a node that \<^verbatim>\<open>tty_action\<close> has acted on and that
  has a nonzero pid is enabled in the runlevel, so after \<^verbatim>\<open>tty_reload(NULL)\<close>, whatever the
  state before, every running TTY is enabled in the current runlevel; \<^verbatim>\<open>tty_mark\<close>,
  \<^verbatim>\<open>tty_sweep\<close> and \<^verbatim>\<open>tty_unregister\<close> keep it so, and so does \<^verbatim>\<open>tty_register\<close> of a line
  that allows the current runlevel.

  In such a state a node with mark 0 and a nonzero pid is in the list, unchanged, after
  \<^verbatim>\<open>tty_reload(NULL)\<close>, and after a second one, and the only signals the reload sends are
  SIGKILL to processes of nodes that were dirty.  Whatever the state before, a node that
  has a nonzero pid after one \<^verbatim>\<open>tty_reload(NULL)\<close> is in the list, unchanged, after a
  second one.  In any state, every signal \<^verbatim>\<open>tty_reload(NULL)\<close> sends is a SIGKILL to the
  process of a node that was dirty or is not enabled in the current runlevel.
\<close>

theorem tty_reload_unchanged_keeps_running:
  "(tty_register E line rlimit cfile w = (0, w') \<and> (\<forall>f. cfile = Some f \<longrightarrow> \<not> conf_changed E f) \<longrightarrow>
      (\<exists>dev. (\<exists>n\<in>set (tty_list w'). tty_name (tty_data n) = dev \<and> tty_dirty n = 0)
         \<and> (\<forall>i. tty_find w dev = Some i \<longrightarrow>
               tty_name (tty_data (tty_list w' ! i)) = dev
               \<and> tty_dirty (tty_list w' ! i) = 0
               \<and> tty_pid (tty_data (tty_list w' ! i)) = tty_pid (tty_data (tty_list w ! i)))))
   \<and> (n \<in> set (tty_list w) \<and> tty_dirty n = 0 \<longrightarrow> n \<in> set (tty_list (tty_sweep w)))
   \<and> (tty_pid t \<noteq> 0 \<longrightarrow> tty_start E t cs = (t, cs))
   \<and> (tty_pid (tty_data (fst (tty_action E rl a cs))) \<noteq> 0 \<longrightarrow>
        tty_enabled rl (Some (tty_data (fst (tty_action E rl a cs)))))
   \<and> running_enabled (tty_reload E None w)
   \<and> (running_enabled w \<longrightarrow>
        running_enabled (tty_mark w) \<and> running_enabled (tty_sweep w)
        \<and> running_enabled (snd (tty_unregister tty w)))
   \<and> (running_enabled w \<and> tty_register E line rlimit cfile w = (rc, w')
        \<and> (\<forall>l. line = Some l \<longrightarrow>
               bit (conf_parse_runlevels E (p_runlevels (tty_scan E l))) (runlevel w)) \<longrightarrow>
        running_enabled w')
   \<and> (running_enabled w \<and> n \<in> set (tty_list w) \<and> tty_dirty n = 0
        \<and> tty_pid (tty_data n) \<noteq> 0 \<longrightarrow>
      n \<in> set (tty_list (tty_reload E None w))
      \<and> n \<in> set (tty_list (tty_reload E None (tty_reload E None w))))
   \<and> (running_enabled w \<longrightarrow>
        (\<exists>new. tcalls (tty_reload E None w) = tcalls w @ new
           \<and> (\<forall>c\<in>set new. \<forall>p sg. c = Kill p sg \<longrightarrow>
                 sg = SIGKILL
                 \<and> (\<exists>m\<in>set (tty_list w). tty_pid (tty_data m) = p \<and> p \<noteq> 0
                       \<and> tty_dirty m \<noteq> 0))))
   \<and> (n \<in> set (tty_list (tty_reload E None w)) \<and> tty_pid (tty_data n) \<noteq> 0 \<longrightarrow>
      n \<in> set (tty_list (tty_reload E None (tty_reload E None w))))
   \<and> (\<exists>new. tcalls (tty_reload E None w) = tcalls w @ new
         \<and> (\<forall>c\<in>set new. \<forall>p sg. c = Kill p sg \<longrightarrow>
               sg = SIGKILL
               \<and> (\<exists>m\<in>set (tty_list w). tty_pid (tty_data m) = p \<and> p \<noteq> 0
                     \<and> (tty_dirty m \<noteq> 0 \<or> \<not> tty_enabled (runlevel w) (Some (tty_data m))))))"
proof (intro conjI impI)
  assume a: "tty_register E line rlimit cfile w = (0, w') \<and> (\<forall>f. cfile = Some f \<longrightarrow> \<not> conf_changed E f)"
  then have clean: "(case cfile of Some f \<Rightarrow> if conf_changed E f then 1 else 0 | None \<Rightarrow> (0::int)) = 0"
    by (cases "cfile") auto
  from a have r: "tty_register E line rlimit cfile w = (0, w')" by simp
  from tty_register_cases [OF r] obtain l dev where
    ld: "line = Some l" "canonicalize E (p_dev (tty_scan E l)) = Some dev"
    and cs: "(\<exists>i. tty_find w dev = Some i
                 \<and> w' = w\<lparr>tty_list := (tty_list w)[i := tty_fill E l rlimit cfile dev (tty_list w ! i)]\<rparr>)
            \<or> (tty_find w dev = None \<and> calloc_ok E
                 \<and> w' = w\<lparr>tty_list := tty_fill E l rlimit cfile dev (calloc_node E) # tty_list w\<rparr>)"
    by auto
  from cs have "(\<exists>n\<in>set (tty_list w'). tty_name (tty_data n) = dev \<and> tty_dirty n = 0)
         \<and> (\<forall>i. tty_find w dev = Some i \<longrightarrow>
               tty_name (tty_data (tty_list w' ! i)) = dev
               \<and> tty_dirty (tty_list w' ! i) = 0
               \<and> tty_pid (tty_data (tty_list w' ! i)) = tty_pid (tty_data (tty_list w ! i)))"
  proof (elim disjE exE conjE)
    fix i assume f: "tty_find w dev = Some i"
      and w': "w' = w\<lparr>tty_list := (tty_list w)[i := tty_fill E l rlimit cfile dev (tty_list w ! i)]\<rparr>"
    from tty_find_Some [OF f] have i: "i < length (tty_list w)" by simp
    then have "tty_fill E l rlimit cfile dev (tty_list w ! i) \<in> set (tty_list w')"
      using w' by (simp add: set_update_memI)
    moreover have "tty_list w' ! i = tty_fill E l rlimit cfile dev (tty_list w ! i)"
      using w' i by simp
    ultimately show ?thesis using f clean by (auto simp: tty_fill_fields intro!: bexI)
  next
    assume f: "tty_find w dev = None"
      and w': "w' = w\<lparr>tty_list := tty_fill E l rlimit cfile dev (calloc_node E) # tty_list w\<rparr>"
    then show ?thesis using clean by (simp add: tty_fill_fields)
  qed
  then show "\<exists>dev. (\<exists>n\<in>set (tty_list w'). tty_name (tty_data n) = dev \<and> tty_dirty n = 0)
         \<and> (\<forall>i. tty_find w dev = Some i \<longrightarrow>
               tty_name (tty_data (tty_list w' ! i)) = dev
               \<and> tty_dirty (tty_list w' ! i) = 0
               \<and> tty_pid (tty_data (tty_list w' ! i)) = tty_pid (tty_data (tty_list w ! i)))"
    by blast
next
  assume "n \<in> set (tty_list w) \<and> tty_dirty n = 0"
  then show "n \<in> set (tty_list (tty_sweep w))"
    unfolding tty_sweep_list by (simp add: sweep_nodes_keeps_clean)
next
  assume "tty_pid t \<noteq> 0"
  then show "tty_start E t cs = (t, cs)" by (rule tty_start_running)
next
  assume "tty_pid (tty_data (fst (tty_action E rl a cs))) \<noteq> 0"
  then show "tty_enabled rl (Some (tty_data (fst (tty_action E rl a cs))))"
    by (rule tty_action_running_is_enabled)
next
  show "running_enabled (tty_reload E None w)" by (rule tty_reload_running_enabled)
next
  assume inv: "running_enabled w"
  show "running_enabled (tty_mark w)" using inv by (rule tty_mark_running_enabled)
  show "running_enabled (tty_sweep w)" using inv by (rule tty_sweep_running_enabled)
  show "running_enabled (snd (tty_unregister tty w))"
    using inv by (rule tty_unregister_running_enabled)
next
  assume "running_enabled w \<and> tty_register E line rlimit cfile w = (rc, w')
        \<and> (\<forall>l. line = Some l \<longrightarrow>
               bit (conf_parse_runlevels E (p_runlevels (tty_scan E l))) (runlevel w))"
  then show "running_enabled w'" by (blast intro: tty_register_running_enabled)
next
  assume a: "running_enabled w \<and> n \<in> set (tty_list w) \<and> tty_dirty n = 0
        \<and> tty_pid (tty_data n) \<noteq> 0"
  then show one: "n \<in> set (tty_list (tty_reload E None w))"
    by (simp add: tty_reload_keeps_running)
  have "running_enabled (tty_reload E None w)" by (rule tty_reload_running_enabled)
  with one a show "n \<in> set (tty_list (tty_reload E None (tty_reload E None w)))"
    by (simp add: tty_reload_keeps_running)
next
  assume "running_enabled w"
  then show "\<exists>new. tcalls (tty_reload E None w) = tcalls w @ new
           \<and> (\<forall>c\<in>set new. \<forall>p sg. c = Kill p sg \<longrightarrow>
                 sg = SIGKILL
                 \<and> (\<exists>m\<in>set (tty_list w). tty_pid (tty_data m) = p \<and> p \<noteq> 0
                       \<and> tty_dirty m \<noteq> 0))"
    by (rule tty_reload_calls_running)
next
  assume a: "n \<in> set (tty_list (tty_reload E None w)) \<and> tty_pid (tty_data n) \<noteq> 0"
  then have "n \<in> set (fst (reload_nodes E (runlevel w) (fst (sweep_nodes (tty_list w) (tcalls w)))
      (snd (sweep_nodes (tty_list w) (tcalls w)))))"
    by (simp add: tty_reload_all)
  from reload_nodes_result [OF this] a
  have "tty_dirty n = 0" "tty_enabled (runlevel (tty_reload E None w)) (Some (tty_data n))"
    by (simp_all add: tty_reload_runlevel)
  with a show "n \<in> set (tty_list (tty_reload E None (tty_reload E None w)))"
    by (simp add: tty_reload_keeps)
next
  show "\<exists>new. tcalls (tty_reload E None w) = tcalls w @ new
         \<and> (\<forall>c\<in>set new. \<forall>p sg. c = Kill p sg \<longrightarrow>
               sg = SIGKILL
               \<and> (\<exists>m\<in>set (tty_list w). tty_pid (tty_data m) = p \<and> p \<noteq> 0
                     \<and> (tty_dirty m \<noteq> 0 \<or> \<not> tty_enabled (runlevel w) (Some (tty_data m)))))"
    by (rule tty_reload_calls)
qed

text \<open>
  Claim C10.  If no two nodes of the registry have the same device name, this is still so
  after \<^verbatim>\<open>tty_register\<close>, \<^verbatim>\<open>tty_unregister\<close>, \<^verbatim>\<open>tty_sweep\<close>, \<^verbatim>\<open>tty_reload\<close> and
  \<^verbatim>\<open>tty_mark\<close>.  A \<^verbatim>\<open>tty_register\<close> that fails leaves the state as it is; one that succeeds
  either finds the canonical device with \<^verbatim>\<open>tty_find\<close> and updates that node where it is,
  \<^verbatim>\<open>tty_num\<close> staying the same, or does not find it and puts a new node at the head, \<^verbatim>\<open>tty_num\<close>
  growing by one.  Registering the same line a second time leaves \<^verbatim>\<open>tty_num\<close> unchanged.
  \<^verbatim>\<open>tty_unregister\<close> removes the node at the given position and leaves the other nodes in
  their order.
\<close>

theorem tty_registry_one_node_per_device:
  "(distinct (map (\<lambda>n. tty_name (tty_data n)) (tty_list w)) \<longrightarrow>
      distinct (map (\<lambda>n. tty_name (tty_data n)) (tty_list (snd (tty_register E line rlimit cfile w))))
      \<and> distinct (map (\<lambda>n. tty_name (tty_data n)) (tty_list (snd (tty_unregister tty w))))
      \<and> distinct (map (\<lambda>n. tty_name (tty_data n)) (tty_list (tty_sweep w)))
      \<and> distinct (map (\<lambda>n. tty_name (tty_data n)) (tty_list (tty_reload E dv w)))
      \<and> distinct (map (\<lambda>n. tty_name (tty_data n)) (tty_list (tty_mark w))))
   \<and> (tty_register E line rlimit cfile w = (rc, w') \<longrightarrow>
        (rc \<noteq> 0 \<and> w' = w)
        \<or> (rc = 0 \<and> (\<exists>l dev. line = Some l \<and> canonicalize E (p_dev (tty_scan E l)) = Some dev
              \<and> ((\<exists>i. tty_find w dev = Some i \<and> tty_num w' = tty_num w
                      \<and> w' = w\<lparr>tty_list :=
                                 (tty_list w)[i := tty_fill E l rlimit cfile dev (tty_list w ! i)]\<rparr>)
                 \<or> (tty_find w dev = None \<and> tty_num w' = Suc (tty_num w)
                      \<and> w' = w\<lparr>tty_list :=
                                 tty_fill E l rlimit cfile dev (calloc_node E) # tty_list w\<rparr>)))))
   \<and> tty_num (snd (tty_register E line rlimit cfile (snd (tty_register E line rlimit cfile w))))
       = tty_num (snd (tty_register E line rlimit cfile w))
   \<and> (i < tty_num w \<longrightarrow>
        tty_unregister (Some i) w = (0, w\<lparr>tty_list := take i (tty_list w) @ drop (Suc i) (tty_list w)\<rparr>)
        \<and> Suc (tty_num (snd (tty_unregister (Some i) w))) = tty_num w
        \<and> (\<forall>j<i. tty_list (snd (tty_unregister (Some i) w)) ! j = tty_list w ! j)
        \<and> (\<forall>j. i \<le> j \<and> Suc j < tty_num w \<longrightarrow>
              tty_list (snd (tty_unregister (Some i) w)) ! j = tty_list w ! Suc j))"
proof (intro conjI impI)
  assume d: "distinct (map (\<lambda>n. tty_name (tty_data n)) (tty_list w))"
  show "distinct (map (\<lambda>n. tty_name (tty_data n)) (tty_list (snd (tty_register E line rlimit cfile w))))"
    using d by (rule tty_register_distinct)
  show "distinct (map (\<lambda>n. tty_name (tty_data n)) (tty_list (snd (tty_unregister tty w))))"
    using d by (rule tty_unregister_distinct)
  show "distinct (map (\<lambda>n. tty_name (tty_data n)) (tty_list (tty_sweep w)))"
    using d by (rule tty_sweep_distinct)
  show "distinct (map (\<lambda>n. tty_name (tty_data n)) (tty_list (tty_reload E dv w)))"
    using d by (rule tty_reload_distinct)
  show "distinct (map (\<lambda>n. tty_name (tty_data n)) (tty_list (tty_mark w)))"
    using d by (rule tty_mark_distinct)
next
  assume r: "tty_register E line rlimit cfile w = (rc, w')"
  from tty_register_cases [OF r]
  show "(rc \<noteq> 0 \<and> w' = w)
        \<or> (rc = 0 \<and> (\<exists>l dev. line = Some l \<and> canonicalize E (p_dev (tty_scan E l)) = Some dev
              \<and> ((\<exists>i. tty_find w dev = Some i \<and> tty_num w' = tty_num w
                      \<and> w' = w\<lparr>tty_list :=
                                 (tty_list w)[i := tty_fill E l rlimit cfile dev (tty_list w ! i)]\<rparr>)
                 \<or> (tty_find w dev = None \<and> tty_num w' = Suc (tty_num w)
                      \<and> w' = w\<lparr>tty_list :=
                                 tty_fill E l rlimit cfile dev (calloc_node E) # tty_list w\<rparr>))))"
  proof (elim disjE conjE exE)
    assume "rc \<noteq> 0" "w' = w"
    then show ?thesis by simp
  next
    fix l dev j
    assume "rc = 0" "line = Some l" "canonicalize E (p_dev (tty_scan E l)) = Some dev"
      "tty_find w dev = Some j"
      "w' = w\<lparr>tty_list := (tty_list w)[j := tty_fill E l rlimit cfile dev (tty_list w ! j)]\<rparr>"
    moreover from this have "tty_num w' = tty_num w" by (simp add: tty_num_def)
    ultimately show ?thesis by blast
  next
    fix l dev
    assume "rc = 0" "line = Some l" "canonicalize E (p_dev (tty_scan E l)) = Some dev"
      "tty_find w dev = None"
      "w' = w\<lparr>tty_list := tty_fill E l rlimit cfile dev (calloc_node E) # tty_list w\<rparr>"
    moreover from this have "tty_num w' = Suc (tty_num w)" by (simp add: tty_num_def)
    ultimately show ?thesis by blast
  qed
next
  show "tty_num (snd (tty_register E line rlimit cfile (snd (tty_register E line rlimit cfile w))))
       = tty_num (snd (tty_register E line rlimit cfile w))"
    by (rule tty_register_twice_num)
next
  assume i: "i < tty_num w"
  show "tty_unregister (Some i) w = (0, w\<lparr>tty_list := take i (tty_list w) @ drop (Suc i) (tty_list w)\<rparr>)"
    by (simp add: tty_unregister_def)
  show "Suc (tty_num (snd (tty_unregister (Some i) w))) = tty_num w"
    using i by (simp add: tty_unregister_def tty_num_def)
  show "\<forall>j<i. tty_list (snd (tty_unregister (Some i) w)) ! j = tty_list w ! j"
    using i by (simp add: tty_unregister_def tty_num_def nth_append)
  show "\<forall>j. i \<le> j \<and> Suc j < tty_num w \<longrightarrow>
              tty_list (snd (tty_unregister (Some i) w)) ! j = tty_list w ! Suc j"
  proof (intro allI impI)
    fix j assume j: "i \<le> j \<and> Suc j < tty_num w"
    then have "(take i (tty_list w) @ drop (Suc i) (tty_list w)) ! j
        = drop (Suc i) (tty_list w) ! (j - i)"
      using i by (simp add: nth_append tty_num_def min_def)
    also have "\<dots> = tty_list w ! (Suc i + (j - i))"
      using j by (simp add: tty_num_def)
    also have "Suc i + (j - i) = Suc j" using j by simp
    finally show "tty_list (snd (tty_unregister (Some i) w)) ! j = tty_list w ! Suc j"
      by (simp add: tty_unregister_def)
  qed
qed


lemmas tty_sample_defs = sample_tty_env_def node_ttyS0_def node_tty1_def sample_tstate_def

lemmas tty_eval = tty_register_def tty_scan_def tty_tokens_def scan_args_def scan_arg_def
  canonicalize_def tty_find_def tty_fill_def line_after_strtok_def is_delim_def isdigit_def
  PATH_DEV_def calloc_node_def Let_def

lemma sample_register_ttyS0:
  "tty_register sample_tty_env (Some ''[2] /dev/ttyS0 115200 vt100'') []
      (Some ''/etc/finit.conf'') (tty_mark (sample_tstate rl)) = (0, sample_tstate rl)"
  by (simp add: tty_sample_defs tty_eval tty_mark_def upt_rec)

lemma sample_register_ttyS0':
  "tty_register sample_tty_env (Some ''[2] /dev/ttyS0 115200 vt100'') []
      (Some ''/etc/finit.conf'') (sample_tstate rl) = (0, sample_tstate rl)"
  by (simp add: tty_sample_defs tty_eval upt_rec)

lemma sample_register_tty1:
  "tty_register sample_tty_env (Some ''tty1 nowait'') [] None (sample_tstate rl)
     = (0, (sample_tstate rl)\<lparr>tty_list := [node_tty1, node_ttyS0]\<rparr>)"
  by (simp add: tty_sample_defs tty_eval upt_rec)

text \<open>
  In runlevel 2 the getty on \<^verbatim>\<open>/dev/ttyS0\<close>, allowed in runlevel 2 and running with pid
  100, is registered again from the unchanged file and is still there, with pid 100, after
  one reload and after two, and the reload makes no call.  A state in which the getty runs
  in runlevel 3, where it is not allowed, is not one in which every running TTY is enabled;
  the state after a reload is.
\<close>

theorem tty_reload_unchanged_keeps_running_witness:
  "tty_register sample_tty_env (Some ''[2] /dev/ttyS0 115200 vt100'') []
       (Some ''/etc/finit.conf'') (sample_tstate 2) = (0, sample_tstate 2)
   \<and> running_enabled (sample_tstate 2)
   \<and> tty_pid (tty_data node_ttyS0) = 100
   \<and> node_ttyS0 \<in> set (tty_list (tty_sweep (sample_tstate 2)))
   \<and> tty_start sample_tty_env (tty_data node_ttyS0) [] = (tty_data node_ttyS0, [])
   \<and> node_ttyS0 \<in> set (tty_list (tty_reload sample_tty_env None (sample_tstate 2)))
   \<and> node_ttyS0 \<in> set (tty_list (tty_reload sample_tty_env None
                                    (tty_reload sample_tty_env None (sample_tstate 2))))
   \<and> tcalls (tty_reload sample_tty_env None (sample_tstate 2)) = []
   \<and> \<not> running_enabled (sample_tstate 3)
   \<and> running_enabled (tty_reload sample_tty_env None (sample_tstate 3))"
proof -
  let ?E = sample_tty_env and ?w = "sample_tstate 2"
  have h1: "tty_register ?E (Some ''[2] /dev/ttyS0 115200 vt100'') [] (Some ''/etc/finit.conf'') ?w
      = (0, ?w)"
    by (rule sample_register_ttyS0')
  have h2: "node_ttyS0 \<in> set (tty_list ?w) \<and> tty_dirty node_ttyS0 = 0"
    by (simp add: tty_sample_defs)
  have h3: "tty_pid (tty_data node_ttyS0) \<noteq> 0" "tty_pid (tty_data node_ttyS0) = 100"
    by (simp_all add: tty_sample_defs)
  have en: "bit (4::nat) 2" "\<not> bit (4::nat) 3" by (simp_all add: bit_iff_odd)
  have inv: "running_enabled ?w"
    using en by (simp add: running_enabled_def tty_sample_defs tty_enabled_def)
  have ninv: "\<not> running_enabled (sample_tstate 3)"
    using en by (simp add: running_enabled_def tty_sample_defs tty_enabled_def)
  have h4: "running_enabled ?w \<and> node_ttyS0 \<in> set (tty_list ?w) \<and> tty_dirty node_ttyS0 = 0
      \<and> tty_pid (tty_data node_ttyS0) \<noteq> 0"
    using inv h2 h3 by simp
  have calls: "tcalls (tty_reload ?E None ?w) = []"
    using en by (simp add: tty_reload_def tty_sweep_def tty_action_def tty_enabled_def
          tty_start_def tty_sample_defs Let_def)
  note t = tty_reload_unchanged_keeps_running [of ?E "Some ''[2] /dev/ttyS0 115200 vt100''" "[]"
      "Some ''/etc/finit.conf''" ?w ?w node_ttyS0 "tty_data node_ttyS0" "[]" 2 node_ttyS0 None 0]
  note t3 = tty_reload_unchanged_keeps_running [of ?E "Some ''[2] /dev/ttyS0 115200 vt100''" "[]"
      "Some ''/etc/finit.conf''" "sample_tstate 3" ?w node_ttyS0 "tty_data node_ttyS0" "[]" 2
      node_ttyS0 None 0]
  from t h2 have a: "node_ttyS0 \<in> set (tty_list (tty_sweep ?w))" by blast
  from t h3(1) have b: "tty_start ?E (tty_data node_ttyS0) [] = (tty_data node_ttyS0, [])" by blast
  from t h4 have c: "node_ttyS0 \<in> set (tty_list (tty_reload ?E None ?w))
      \<and> node_ttyS0 \<in> set (tty_list (tty_reload ?E None (tty_reload ?E None ?w)))" by blast
  from t3 have d: "running_enabled (tty_reload ?E None (sample_tstate 3))" by blast
  from h1 inv h3(2) a b c calls ninv d show ?thesis by blast
qed

theorem tty_registry_one_node_per_device_witness:
  "distinct (map (\<lambda>n. tty_name (tty_data n)) (tty_list (sample_tstate 2)))
   \<and> distinct (map (\<lambda>n. tty_name (tty_data n))
        (tty_list (snd (tty_register sample_tty_env (Some ''tty1 nowait'') [] None (sample_tstate 2)))))
   \<and> tty_num (sample_tstate 2) = 1
   \<and> tty_num (snd (tty_register sample_tty_env (Some ''tty1 nowait'') [] None (sample_tstate 2))) = 2
   \<and> tty_num (snd (tty_register sample_tty_env (Some ''tty1 nowait'') [] None
        (snd (tty_register sample_tty_env (Some ''tty1 nowait'') [] None (sample_tstate 2))))) = 2
   \<and> tty_unregister (Some 0) (sample_tstate 2) = (0, (sample_tstate 2)\<lparr>tty_list := []\<rparr>)"
proof -
  let ?E = sample_tty_env and ?w = "sample_tstate 2"
  let ?w1 = "(sample_tstate 2)\<lparr>tty_list := [node_tty1, node_ttyS0]\<rparr>"
  have r: "tty_register ?E (Some ''tty1 nowait'') [] None ?w = (0, ?w1)"
    by (rule sample_register_tty1)
  have d: "distinct (map (\<lambda>n. tty_name (tty_data n)) (tty_list ?w))"
    by (simp add: tty_sample_defs)
  have n1: "tty_num ?w = 1" by (simp add: tty_num_def tty_sample_defs)
  have n2: "tty_num (snd (tty_register ?E (Some ''tty1 nowait'') [] None ?w)) = 2"
    unfolding r by (simp add: tty_num_def)
  have i: "0 < tty_num ?w" using n1 by simp
  note t = tty_registry_one_node_per_device [of ?w ?E "Some ''tty1 nowait''" "[]" None "Some 0" None
      0 ?w1 0]
  from t d have a: "distinct (map (\<lambda>n. tty_name (tty_data n))
        (tty_list (snd (tty_register ?E (Some ''tty1 nowait'') [] None ?w))))" by blast
  from t have b: "tty_num (snd (tty_register ?E (Some ''tty1 nowait'') [] None
        (snd (tty_register ?E (Some ''tty1 nowait'') [] None ?w))))
      = tty_num (snd (tty_register ?E (Some ''tty1 nowait'') [] None ?w))" by blast
  from t i have c: "tty_unregister (Some 0) ?w
      = (0, ?w\<lparr>tty_list := take 0 (tty_list ?w) @ drop (Suc 0) (tty_list ?w)\<rparr>)" by blast
  have c': "take 0 (tty_list ?w) @ drop (Suc 0) (tty_list ?w) = []"
    by (simp add: tty_sample_defs)
  from d a n1 n2 b c show ?thesis unfolding c' by simp
qed

end
